theory Spec2Isabelle
  imports
    Complex_Main
    "HOL-Library.Char_ord"
    "HOL-Library.List_Lexorder"
    "HOL-Library.Multiset"
    "HOL-Library.AList"
begin

section \<open>Data model\<close>

text \<open>
  A Go \<^verbatim>\<open>string\<close> is a sequence of bytes: it is a \<^typ>\<open>string\<close> here, one
  \<^typ>\<open>char\<close> per byte, and \<^verbatim>\<open>int64(s[i])\<close> is the byte's value. The \<^verbatim>\<open>int64\<close>
  fields of \<^verbatim>\<open>Location\<close> are \<^typ>\<open>int\<close>: a parsed value is below \<open>255 * 111\<close> in
  magnitude and a count is below the number of bytes of the file, so that no total of a
  file that a file system can hold reaches \<open>2^63\<close>.
\<close>

record Location =
  Min :: int
  Max :: int
  Total :: int
  Count :: int

text \<open>
  The errors and panics of the program. \<open>IndexOutOfRange\<close> is the run-time panic of an
  index expression \<^verbatim>\<open>s[i]\<close> with \<^verbatim>\<open>i >= len(s)\<close>; \<open>ErrTooLong\<close> is
  \<^verbatim>\<open>bufio.ErrTooLong\<close>; \<open>ErrOpen\<close> and \<open>ErrStat\<close> are the errors of \<^verbatim>\<open>os.Open\<close> and
  \<^verbatim>\<open>file.Stat\<close>; \<open>ErrCancelled\<close> is "cancelled due to context"; \<open>LocationNotInMap\<close> is
  the error of \<^verbatim>\<open>createResult\<close>.
\<close>

datatype error =
    IndexOutOfRange
  | ErrTooLong
  | ErrOpen
  | ErrStat
  | ErrCancelled
  | LocationNotInMap string

definition byte :: "char \<Rightarrow> int" where
  "byte c = int (of_char c)"

text \<open>The index expression \<^verbatim>\<open>s[i]\<close> of Go, with its bounds check.\<close>

definition byte_at :: "string \<Rightarrow> nat \<Rightarrow> error + char" where
  "byte_at s i = (if i < length s then Inr (s ! i) else Inl IndexOutOfRange)"

section \<open>The fixed-point parser\<close>

text \<open>
  \<^verbatim>\<open>parseNumber\<close>, with every index expression checked in the order in which Go
  evaluates them. \<^verbatim>\<open>'0'*(11)\<close> is \<open>48 * 11\<close>.
\<close>

definition parseNumber :: "string \<Rightarrow> error + int" where
  "parseNumber temperature0 =
     (case byte_at temperature0 0 of
        Inl e \<Rightarrow> Inl e
      | Inr c \<Rightarrow>
          let negative = (c = CHR ''-'');
              temperature = (if negative then drop 1 temperature0 else temperature0)
          in
            (case byte_at temperature 1 of
               Inl e \<Rightarrow> Inl e
             | Inr c1 \<Rightarrow>
                 (case
                    (if c1 = CHR ''.'' then
                       (case byte_at temperature 2 of
                          Inl e \<Rightarrow> Inl e
                        | Inr c2 \<Rightarrow>
                            (case byte_at temperature 0 of
                               Inl e \<Rightarrow> Inl e
                             | Inr c0 \<Rightarrow> Inr (byte c2 + byte c0 * 10 - 48 * 11)))
                     else
                       (case byte_at temperature 3 of
                          Inl e \<Rightarrow> Inl e
                        | Inr c3 \<Rightarrow>
                            (case byte_at temperature 1 of
                               Inl e \<Rightarrow> Inl e
                             | Inr c1' \<Rightarrow>
                                 (case byte_at temperature 0 of
                                    Inl e \<Rightarrow> Inl e
                                  | Inr c0 \<Rightarrow>
                                      Inr (byte c3 + byte c1' * 10 + byte c0 * 100 - 48 * 111)))))
                  of
                    Inl e \<Rightarrow> Inl e
                  | Inr val \<Rightarrow> Inr (if negative then - val else val))))"

section \<open>Strings, lines and maps\<close>

abbreviation newline :: char where
  "newline \<equiv> CHR 0x0A"

abbreviation carriage_return :: char where
  "carriage_return \<equiv> CHR 0x0D"

text \<open>\<^verbatim>\<open>strings.Index(s, sep)\<close> for a separator of one byte: the first index, or -1.\<close>

definition strings_Index :: "string \<Rightarrow> char \<Rightarrow> int" where
  "strings_Index s c =
     (if c \<in> set s then int (length (takeWhile (\<lambda>x. x \<noteq> c) s)) else - 1)"

text \<open>\<^verbatim>\<open>strings.Split(s, sep)\<close> for a separator of one byte.\<close>

fun strings_Split :: "string \<Rightarrow> char \<Rightarrow> string list" where
  "strings_Split [] sep = [[]]"
| "strings_Split (c # cs) sep =
     (if c = sep then [] # strings_Split cs sep
      else (case strings_Split cs sep of
              [] \<Rightarrow> [[c]]
            | l # ls \<Rightarrow> (c # l) # ls))"

text \<open>
  A \<^verbatim>\<open>map[string]Location\<close> is an association list with distinct keys: \<open>map_of\<close> looks
  a key up, \<open>AList.update\<close> stores a value. Go does not fix the order in which
  \<^verbatim>\<open>range\<close> visits a map, and no goroutine is scheduled in a fixed order: wherever the
  program depends on such a choice the model takes it as a parameter, a list of numbers
  that \<open>reorder\<close> turns into the order chosen (the n-th number picks one of the elements
  that are left).
\<close>

type_synonym locationMap = "(string \<times> Location) list"

fun reorder :: "nat list \<Rightarrow> 'a list \<Rightarrow> 'a list" where
  "reorder [] xs = xs"
| "reorder (n # ns) xs =
     (if xs = [] then []
      else xs ! (n mod length xs)
             # reorder ns (take (n mod length xs) xs @ drop (Suc (n mod length xs)) xs))"

section \<open>The sequential aggregator\<close>

text \<open>
  \<^verbatim>\<open>bufio.Scanner\<close> with its default split function \<^verbatim>\<open>ScanLines\<close>: the tokens are the
  pieces of the file between newlines (no token after a final newline), each without a
  trailing carriage return. A token must fit the scanner's buffer together with its
  newline, and the buffer grows up to \<^verbatim>\<open>MaxScanTokenSize\<close> bytes: at a line of that
  many bytes or more \<^verbatim>\<open>Scan\<close> returns false and \<^verbatim>\<open>Err\<close> is \<^verbatim>\<open>ErrTooLong\<close>. Reading
  a byte that the file holds does not fail.
\<close>

definition MaxScanTokenSize :: nat where
  "MaxScanTokenSize = 64 * 1024"

definition scanner_lines :: "string \<Rightarrow> string list" where
  "scanner_lines data =
     (let ls = strings_Split data newline in if last ls = [] then butlast ls else ls)"

definition dropCR :: "string \<Rightarrow> string" where
  "dropCR l = (if l \<noteq> [] \<and> last l = carriage_return then butlast l else l)"

text \<open>The body of the loop of \<^verbatim>\<open>parseFile\<close>, on the state \<open>(locations, locationMap)\<close>.\<close>

definition parseFile_line ::
  "string \<Rightarrow> string list \<times> locationMap \<Rightarrow> error + (string list \<times> locationMap)" where
  "parseFile_line line st =
     (let (locations, locationMap) = st;
          splitIndex = strings_Index line CHR '';''
      in
        if splitIndex = - 1 then Inr st
        else
          let locationName = take (nat splitIndex) line in
            (case parseNumber (drop (nat (splitIndex + 1)) line) of
               Inl e \<Rightarrow> Inl e
             | Inr temperature \<Rightarrow>
                 (case map_of locationMap locationName of
                    None \<Rightarrow>
                      Inr (locations @ [locationName],
                           AList.update locationName
                             \<lparr>Min = temperature, Max = temperature,
                              Total = temperature, Count = 1\<rparr> locationMap)
                  | Some loc \<Rightarrow>
                      Inr (locations,
                           AList.update locationName
                             (loc\<lparr>Count := Count loc + 1,
                                  Total := Total loc + temperature,
                                  Max := (if Max loc < temperature then temperature else Max loc),
                                  Min := (if Min loc > temperature then temperature else Min loc)\<rparr>)
                             locationMap))))"

fun parseFile_loop ::
  "string list \<Rightarrow> string list \<times> locationMap \<Rightarrow> error + (string list \<times> locationMap)" where
  "parseFile_loop [] st = Inr st"
| "parseFile_loop (token # rest) st =
     (if MaxScanTokenSize \<le> length token then Inl ErrTooLong
      else (case parseFile_line (dropCR token) st of
              Inl e \<Rightarrow> Inl e
            | Inr st' \<Rightarrow> parseFile_loop rest st'))"

text \<open>
  An open file: its bytes, and whether \<^verbatim>\<open>Stat\<close> fails on it. \<^verbatim>\<open>parseFile\<close> does not
  look at its context.
\<close>

record os_File =
  contents :: string
  stat_error :: bool

definition parseFile :: "os_File \<Rightarrow> error + (string list \<times> locationMap)" where
  "parseFile f = parseFile_loop (scanner_lines (contents f)) ([], [])"

section \<open>The chunk worker\<close>

text \<open>
  \<^verbatim>\<open>processLine\<close>: \<open>Inr None\<close> is the nil location of a line that is skipped.
  \<^verbatim>\<open>strings.Trim(line, "")\<close> returns the line as it is, the set of bytes to cut being
  empty.
\<close>

definition processLine :: "string \<Rightarrow> error + (string \<times> Location) option" where
  "processLine line =
     (if line = [] then Inr None
      else
        let splitIndex = strings_Index line CHR '';'' in
          if splitIndex = - 1 then Inr None
          else
            let locationName = take (nat splitIndex) line;
                val = drop (nat (splitIndex + 1)) line
            in
              if length val < 3 \<or> val ! (length val - 2) \<noteq> CHR ''.'' then Inr None
              else
                (case parseNumber val of
                   Inl e \<Rightarrow> Inl e
                 | Inr temperature \<Rightarrow>
                     Inr (Some (locationName,
                                \<lparr>Min = temperature, Max = temperature,
                                 Total = temperature, Count = 1\<rparr>))))"

text \<open>The body of the loop of \<^verbatim>\<open>processChunk\<close>.\<close>

definition processChunk_line :: "string \<Rightarrow> locationMap \<Rightarrow> error + locationMap" where
  "processChunk_line line locationMap =
     (case processLine line of
        Inl e \<Rightarrow> Inl e
      | Inr None \<Rightarrow> Inr locationMap
      | Inr (Some (locationName, location)) \<Rightarrow>
          (case map_of locationMap locationName of
             None \<Rightarrow> Inr (AList.update locationName location locationMap)
           | Some loc \<Rightarrow>
               Inr (AList.update locationName
                      (loc\<lparr>Count := Count loc + 1,
                           Total := Total loc + Total location,
                           Max := (if Max loc < Max location then Max location else Max loc),
                           Min := (if Min loc > Min location then Min location else Min loc)\<rparr>)
                      locationMap)))"

fun processChunk_loop :: "string list \<Rightarrow> locationMap \<Rightarrow> error + locationMap" where
  "processChunk_loop [] locationMap = Inr locationMap"
| "processChunk_loop (line # rest) locationMap =
     (case processChunk_line line locationMap of
        Inl e \<Rightarrow> Inl e
      | Inr locationMap' \<Rightarrow> processChunk_loop rest locationMap')"

definition processChunk :: "string \<Rightarrow> error + locationMap" where
  "processChunk input = processChunk_loop (strings_Split input newline) []"

section \<open>The chunk orchestrator\<close>

definition chunkSize :: nat where
  "chunkSize = 1024 * 80"

text \<open>
  \<^verbatim>\<open>findNextLineBoundary\<close>: \<^verbatim>\<open>ReadAt\<close> of one byte fails before the first byte of the
  file (a negative offset) and at or after its end (\<^verbatim>\<open>io.EOF\<close>).
\<close>

function findNextLineBoundary :: "string \<Rightarrow> int \<Rightarrow> int" where
  "findNextLineBoundary data start =
     (if start < 0 \<or> int (length data) \<le> start \<or> data ! nat start = newline then start
      else findNextLineBoundary data (start - 1))"
  by pat_completeness auto
termination
  by (relation "measure (\<lambda>(data, start). nat (start + 1))") auto

declare findNextLineBoundary.simps [simp del]

text \<open>
  The loop of \<^verbatim>\<open>lineOrchestrator\<close>, for a chunk size \<open>cs\<close>: the list of the ranges
  \<open>(start, end)\<close> with which it starts a worker, in the order of dispatch. The loop need
  not end; \<open>None\<close> is the loop that runs forever.
\<close>

partial_function (option) chunk_loop :: "nat \<Rightarrow> string \<Rightarrow> int \<Rightarrow> (int \<times> int) list option" where
  "chunk_loop cs data start =
     (if start < int (length data) then
        Option.bind
          (chunk_loop cs data
             (findNextLineBoundary data
                (if start + int cs > int (length data) then int (length data)
                 else start + int cs)))
          (\<lambda>rest.
             Some ((start,
                    (if start + int cs > int (length data) then int (length data)
                     else start + int cs)) # rest))
      else Some [])"

declare chunk_loop.simps [code]

text \<open>
  The worker of a range: \<^verbatim>\<open>ReadAt\<close> fails at a negative offset, and returns
  \<^verbatim>\<open>io.EOF\<close> when the file ends before the range does; the worker then sends nothing
  (\<open>None\<close>). Otherwise it sends the mapping of its bytes, unless \<^verbatim>\<open>processChunk\<close>
  panics.
\<close>

definition chunk_worker :: "string \<Rightarrow> int \<times> int \<Rightarrow> (error + locationMap) option" where
  "chunk_worker data chunk =
     (let (start, stop) = chunk in
        if start < 0 then None
        else if int (length data) < stop then None
        else Some (processChunk (take (nat (stop - start)) (drop (nat start) data))))"

text \<open>
  \<^verbatim>\<open>lineOrchestrator\<close>: the error of \<^verbatim>\<open>Stat\<close>, or what the workers send on the channel,
  in the order of dispatch; \<open>None\<close> when its loop runs forever.
\<close>

definition lineOrchestrator :: "nat \<Rightarrow> os_File \<Rightarrow> (error + (error + locationMap) list) option" where
  "lineOrchestrator cs f =
     (if stat_error f then Some (Inl ErrStat)
      else map_option (\<lambda>chunks. Inr (List.map_filter (chunk_worker (contents f)) chunks))
             (chunk_loop cs (contents f) 0))"

section \<open>The merge consumer\<close>

text \<open>
  The body of the loop over a received mapping, for one of its entries: the update of the
  location that the global mapping holds for the key, and the branch on the lookup.
\<close>

definition merge_Location :: "Location \<Rightarrow> Location \<Rightarrow> Location" where
  "merge_Location loc location =
     loc\<lparr>Count := Count loc + Count location,
         Total := Total loc + Total location,
         Max := (if Max loc < Max location then Max location else Max loc),
         Min := (if Min loc > Min location then Min location else Min loc)\<rparr>"

definition merge_entry ::
  "string \<times> Location \<Rightarrow> string list \<times> locationMap \<Rightarrow> string list \<times> locationMap" where
  "merge_entry entry st =
     (let (key, location) = entry;
          (locations, locationMap) = st
      in
        (case map_of locationMap key of
           None \<Rightarrow> (locations @ [key], AList.update key location locationMap)
         | Some loc \<Rightarrow>
             (locations, AList.update key (merge_Location loc location) locationMap)))"

text \<open>
  A context is never cancelled (\<^verbatim>\<open>context.Background()\<close>), or its \<^verbatim>\<open>Done\<close> channel is
  what the \<^verbatim>\<open>select\<close> of the merge loop takes in its iteration \<open>n\<close> (counted from 0), if
  the loop gets that far. A schedule is the order in which the mappings of the workers
  arrive and, for each mapping received, the order in which \<^verbatim>\<open>range\<close> visits it.
\<close>

datatype Context = Background | CancelledAt nat

record schedule =
  arrival :: "nat list"
  ranging :: "nat list list"

text \<open>
  The merge loop from its iteration \<open>i\<close> on, with the mappings still to arrive: the
  completion signal is sent once every worker is done, that is after the last mapping is
  received.
\<close>

fun merge_loop ::
  "nat \<Rightarrow> Context \<Rightarrow> nat list list \<Rightarrow> locationMap list \<Rightarrow> string list \<times> locationMap
     \<Rightarrow> error + (string list \<times> locationMap)" where
  "merge_loop i ctx orders [] st = (if ctx = CancelledAt i then Inl ErrCancelled else Inr st)"
| "merge_loop i ctx orders (miniLocationMap # pending) st =
     (if ctx = CancelledAt i then Inl ErrCancelled
      else merge_loop (i + 1) ctx (tl orders) pending
             (fold merge_entry
                (reorder (case orders of [] \<Rightarrow> [] | order # _ \<Rightarrow> order) miniLocationMap) st))"

text \<open>The first panic among the workers, or the mappings that they send.\<close>

fun collect :: "(error + 'a) list \<Rightarrow> error + 'a list" where
  "collect [] = Inr []"
| "collect (Inl e # rs) = Inl e"
| "collect (Inr m # rs) = (case collect rs of Inl e \<Rightarrow> Inl e | Inr ms \<Rightarrow> Inr (m # ms))"

text \<open>
  \<^verbatim>\<open>parseFileWithConcurrency\<close>, for a chunk size, a context and a schedule. \<open>None\<close>: the
  call does not return. The error of the orchestrator is dropped by the goroutine that
  calls it, which sends the completion signal in every case. A panic of a worker ends the
  process: it is the outcome of the call.
\<close>

definition parseFileWithConcurrency ::
  "nat \<Rightarrow> Context \<Rightarrow> schedule \<Rightarrow> os_File \<Rightarrow> (error + (string list \<times> locationMap)) option" where
  "parseFileWithConcurrency cs ctx sched f =
     (case lineOrchestrator cs f of
        None \<Rightarrow> (case ctx of Background \<Rightarrow> None | CancelledAt n \<Rightarrow> Some (Inl ErrCancelled))
      | Some (Inl err) \<Rightarrow> Some (merge_loop 0 ctx (ranging sched) [] ([], []))
      | Some (Inr results) \<Rightarrow>
          (case collect results of
             Inl e \<Rightarrow> Some (Inl e)
           | Inr maps \<Rightarrow>
               Some (merge_loop 0 ctx (ranging sched) (reorder (arrival sched) maps) ([], []))))"

section \<open>The result formatter\<close>

text \<open>
  The \<^verbatim>\<open>float64\<close> values of \<^verbatim>\<open>createResult\<close>, in exact arithmetic: a sign and a
  magnitude, the infinities and NaN. The conversion of an integer below \<open>2^53\<close> in
  magnitude is exact, and below \<open>2^52\<close> the rounding of the division changes neither what
  \<^verbatim>\<open>math.Round\<close> returns nor the digit that \<^verbatim>\<open>FormatFloat\<close> prints; the model is the
  program on totals and counts of that size.
\<close>

datatype float64 = Finite bool real | Infinite bool | NaN

definition float64_of_int :: "int \<Rightarrow> float64" where
  "float64_of_int i = Finite (i < 0) (of_int \<bar>i\<bar>)"

fun float64_div :: "float64 \<Rightarrow> float64 \<Rightarrow> float64" where
  "float64_div NaN y = NaN"
| "float64_div x NaN = NaN"
| "float64_div (Infinite s) (Infinite t) = NaN"
| "float64_div (Infinite s) (Finite t b) = Infinite (s \<noteq> t)"
| "float64_div (Finite s a) (Infinite t) = Finite (s \<noteq> t) 0"
| "float64_div (Finite s a) (Finite t b) =
     (if b = 0 then (if a = 0 then NaN else Infinite (s \<noteq> t))
      else Finite (s \<noteq> t) (a / b))"

text \<open>\<^verbatim>\<open>math.Round\<close>: the nearest integer, a half away from zero; the sign is kept.\<close>

fun math_Round :: "float64 \<Rightarrow> float64" where
  "math_Round (Finite s a) = Finite s (of_int \<lfloor>a + 1 / 2\<rfloor>)"
| "math_Round x = x"

text \<open>The digits of a number in base ten.\<close>

fun decimal :: "nat \<Rightarrow> string" where
  "decimal n =
     (if n < 10 then [''0123456789'' ! n]
      else decimal (n div 10) @ [''0123456789'' ! (n mod 10)])"

declare decimal.simps [simp del]

definition round_half_even :: "real \<Rightarrow> int" where
  "round_half_even x =
     (if x - of_int \<lfloor>x\<rfloor> < 1 / 2 then \<lfloor>x\<rfloor>
      else if 1 / 2 < x - of_int \<lfloor>x\<rfloor> then \<lfloor>x\<rfloor> + 1
      else if even \<lfloor>x\<rfloor> then \<lfloor>x\<rfloor> else \<lfloor>x\<rfloor> + 1)"

text \<open>\<^verbatim>\<open>strconv.FormatFloat(x, 'f', 1, 64)\<close>.\<close>

fun FormatFloat_f1 :: "float64 \<Rightarrow> string" where
  "FormatFloat_f1 NaN = ''NaN''"
| "FormatFloat_f1 (Infinite s) = (if s then ''-Inf'' else ''+Inf'')"
| "FormatFloat_f1 (Finite s a) =
     (if s then ''-'' else [])
       @ decimal (nat (round_half_even (a * 10)) div 10)
       @ ''.''
       @ decimal (nat (round_half_even (a * 10)) mod 10)"

text \<open>What one iteration of the loop of \<^verbatim>\<open>createResult\<close> writes after the separator.\<close>

definition write_location :: "string \<Rightarrow> Location \<Rightarrow> string" where
  "write_location location details =
     location
       @ ''=''
       @ FormatFloat_f1 (float64_div (float64_of_int (Min details)) (Finite False 10))
       @ ''/''
       @ FormatFloat_f1
           (float64_div
              (math_Round
                 (float64_div (float64_of_int (Total details)) (float64_of_int (Count details))))
              (Finite False 10))
       @ ''/''
       @ FormatFloat_f1 (float64_div (float64_of_int (Max details)) (Finite False 10))"

text \<open>
  The loop of \<^verbatim>\<open>createResult\<close> from its iteration \<open>i\<close> on, over the sorted names, with
  the buffer written so far.
\<close>

fun createResult_loop :: "nat \<Rightarrow> string list \<Rightarrow> locationMap \<Rightarrow> string \<Rightarrow> error + string" where
  "createResult_loop i [] locationMap buffer = Inr buffer"
| "createResult_loop i (location # rest) locationMap buffer =
     (case map_of locationMap location of
        None \<Rightarrow> Inl (LocationNotInMap location)
      | Some details \<Rightarrow>
          createResult_loop (i + 1) rest locationMap
            (buffer @ (if i > 0 then '', '' else []) @ write_location location details))"

text \<open>\<^verbatim>\<open>sort.Strings\<close> orders strings byte by byte, a proper prefix first.\<close>

definition createResult :: "string list \<Rightarrow> locationMap \<Rightarrow> error + string" where
  "createResult locations locationMap =
     (case createResult_loop 0 (sort locations) locationMap ''{'' of
        Inl e \<Rightarrow> Inl e
      | Inr buffer \<Rightarrow> Inr (buffer @ ''}''))"

section \<open>The entry point\<close>

text \<open>
  \<^verbatim>\<open>run\<close>, for the files that \<^verbatim>\<open>os.Open\<close> finds; \<open>run_with\<close> is \<^verbatim>\<open>run\<close> for another
  value of the constant \<^verbatim>\<open>chunkSize\<close>.
\<close>

definition run_with ::
  "nat \<Rightarrow> (string \<rightharpoonup> os_File) \<Rightarrow> Context \<Rightarrow> schedule \<Rightarrow> string \<Rightarrow> bool
     \<Rightarrow> (error + string) option" where
  "run_with cs fs ctx sched filePath concurrency =
     (case fs filePath of
        None \<Rightarrow> Some (Inl ErrOpen)
      | Some f \<Rightarrow>
          if concurrency then
            (case parseFileWithConcurrency cs ctx sched f of
               None \<Rightarrow> None
             | Some (Inl err) \<Rightarrow> Some (Inl err)
             | Some (Inr (locations, locationMap)) \<Rightarrow>
                 Some (createResult locations locationMap))
          else
            (case parseFile f of
               Inl err \<Rightarrow> Some (Inl err)
             | Inr (locations, locationMap) \<Rightarrow> Some (createResult locations locationMap)))"

definition run ::
  "(string \<rightharpoonup> os_File) \<Rightarrow> Context \<Rightarrow> schedule \<Rightarrow> string \<Rightarrow> bool \<Rightarrow> (error + string) option" where
  "run = run_with chunkSize"

section \<open>Decimal numerals\<close>

text \<open>
  The decimal digits, and the strings of the forms \<open>[-]D.D\<close> and \<open>[-]DD.D\<close> with the
  number of tenths that each denotes.
\<close>

definition is_digit :: "char \<Rightarrow> bool" where
  "is_digit c = (48 \<le> (of_char c :: nat) \<and> (of_char c :: nat) \<le> 57)"

definition digit_value :: "char \<Rightarrow> int" where
  "digit_value c = byte c - 48"

definition sign_prefix :: "bool \<Rightarrow> string" where
  "sign_prefix neg = (if neg then ''-'' else '''')"

definition signed :: "bool \<Rightarrow> int \<Rightarrow> int" where
  "signed neg v = (if neg then - v else v)"

section \<open>Auxiliary definitions\<close>

text \<open>
  What the merge loop does to the location of one key: \<open>madd\<close> is the branch on the
  lookup, \<open>key_step k\<close> the effect of one entry on the key \<open>k\<close>, and \<open>ranged\<close> the
  sequence of all entries in the order in which the loop visits them.
\<close>

fun madd :: "Location option \<Rightarrow> Location \<Rightarrow> Location option" where
  "madd None v = Some v"
| "madd (Some a) v = Some (merge_Location a v)"

definition key_step :: "string \<Rightarrow> string \<times> Location \<Rightarrow> Location option \<Rightarrow> Location option" where
  "key_step k e acc = (if fst e = k then madd acc (snd e) else acc)"

fun ranged :: "nat list list \<Rightarrow> 'a list list \<Rightarrow> 'a list" where
  "ranged orders [] = []"
| "ranged orders (m # ms) =
     reorder (case orders of [] \<Rightarrow> [] | order # _ \<Rightarrow> order) m @ ranged (tl orders) ms"

text \<open>
  The names of a state \<open>(locations, locationMap)\<close> match when the list of names has no
  duplicate and holds the keys of the mapping.
\<close>

definition names_match :: "string list \<times> locationMap \<Rightarrow> bool" where
  "names_match st \<longleftrightarrow> distinct (fst st) \<and> set (fst st) = dom (map_of (snd st))"

section \<open>The format of the output, as specified\<close>


definition nearest_half_away :: "real \<Rightarrow> int \<Rightarrow> bool" where
  "nearest_half_away q r \<longleftrightarrow>
     \<bar>of_int r - q\<bar> < 1 / 2 \<or> (\<bar>of_int r - q\<bar> = 1 / 2 \<and> \<bar>q\<bar> < \<bar>of_int r\<bar>)"

fun join_entries :: "string list \<Rightarrow> string" where
  "join_entries [] = []"
| "join_entries [e] = e"
| "join_entries (e # es) = e @ '', '' @ join_entries es"

text \<open>The file of the three observations \<open>ham;5.0\<close>, \<open>ham;25.5\<close> and \<open>ham;33.6\<close>.\<close>

definition ham_file :: os_File where
  "ham_file =
     \<lparr>contents = ''ham;5.0'' @ [newline] @ ''ham;25.5'' @ [newline] @ ''ham;33.6'' @ [newline],
      stat_error = False\<rparr>"

section \<open>Ranges of chunks\<close>

text \<open>
  The end of the range that the orchestrator hands out for a start: the start plus the
  chunk size, or the size of the file if that is less.
\<close>

definition chunk_end :: "nat \<Rightarrow> string \<Rightarrow> int \<Rightarrow> int" where
  "chunk_end cs data start =
     (if start + int cs > int (length data) then int (length data) else start + int cs)"

text \<open>A file of one line that is longer than a chunk: 81920 bytes of name, then \<open>;1.0\<close>.\<close>

definition long_line_file :: os_File where
  "long_line_file =
     \<lparr>contents = replicate 81920 CHR ''a'' @ '';1.0'' @ [newline], stat_error = False\<rparr>"

text \<open>
  A start is aligned when it is the first byte of the file, a newline, or at the end of
  the file. The ranges \<open>chunks\<close> are linked from a start when they are the ranges that the
  loop of the orchestrator hands out from there, each start being aligned and beyond the
  one before. The lines of a file are short for a chunk size when each has fewer bytes.
\<close>

definition aligned :: "string \<Rightarrow> int \<Rightarrow> bool" where
  "aligned data s \<longleftrightarrow>
     s = 0 \<or> int (length data) \<le> s \<or> (0 < s \<and> data ! nat s = newline)"

fun linked :: "nat \<Rightarrow> string \<Rightarrow> int \<Rightarrow> (int \<times> int) list \<Rightarrow> bool" where
  "linked cs data start [] = (int (length data) \<le> start)"
| "linked cs data start (c # rest) =
     (fst c = start \<and> 0 \<le> start \<and> start < int (length data)
      \<and> snd c = chunk_end cs data start
      \<and> start < findNextLineBoundary data (snd c)
      \<and> aligned data (findNextLineBoundary data (snd c))
      \<and> linked cs data (findNextLineBoundary data (snd c)) rest)"

definition short_lines :: "nat \<Rightarrow> string \<Rightarrow> bool" where
  "short_lines cs data \<longleftrightarrow> (\<forall>l \<in> set (strings_Split data newline). length l < cs)"

section \<open>The partition of the file, as specified and as it is\<close>

text \<open>
  Ranges abut when each ends where the next starts: this is what a partition of the file
  asks for. Ranges overlap at newlines when each next range starts at the last newline at
  or before the end of the range before it. A line of the file is a range of bytes
  without a newline, from the start of the file or the byte after a newline up to a
  newline or the end of the file.
\<close>

fun abutting :: "(int \<times> int) list \<Rightarrow> bool" where
  "abutting [] = True"
| "abutting [c] = True"
| "abutting (c # c' # rest) = (snd c = fst c' \<and> abutting (c' # rest))"

fun overlapping :: "string \<Rightarrow> (int \<times> int) list \<Rightarrow> bool" where
  "overlapping data [] = True"
| "overlapping data [c] = True"
| "overlapping data (c # c' # rest) =
     (fst c < fst c' \<and> fst c' \<le> snd c \<and> data ! nat (fst c') = newline
      \<and> (\<forall>i \<in> {fst c' <.. snd c}. data ! nat i \<noteq> newline)
      \<and> overlapping data (c' # rest))"

definition is_line :: "string \<Rightarrow> int \<Rightarrow> int \<Rightarrow> bool" where
  "is_line data a b \<longleftrightarrow>
     0 \<le> a \<and> a \<le> b \<and> b \<le> int (length data)
     \<and> (a = 0 \<or> data ! nat (a - 1) = newline)
     \<and> (b = int (length data) \<or> data ! nat b = newline)
     \<and> (\<forall>i \<in> {a ..< b}. data ! nat i \<noteq> newline)"

text \<open>
  A file of two lines: 81917 bytes without a delimiter, then \<open>b;1.0\<close>. The end of the first
  range, 81920, falls inside the second line.
\<close>

definition overlap_file :: string where
  "overlap_file = replicate 81917 CHR ''a'' @ [newline] @ ''b;1.0'' @ [newline]"

section \<open>Valid input files\<close>

text \<open>
  The input format: a line is a name without a delimiter, the delimiter and a value; a
  value is an optional sign, one or two digits, a dot and one digit; a file is valid when
  every line that the scanner finds in it is one.
\<close>

fun valid_unsigned :: "string \<Rightarrow> bool" where
  "valid_unsigned [a, d, b] = (is_digit a \<and> d = CHR ''.'' \<and> is_digit b)"
| "valid_unsigned [a, b, d, c] = (is_digit a \<and> is_digit b \<and> d = CHR ''.'' \<and> is_digit c)"
| "valid_unsigned v = False"

fun valid_value :: "string \<Rightarrow> bool" where
  "valid_value [] = False"
| "valid_value (c # v) = (if c = CHR ''-'' then valid_unsigned v else valid_unsigned (c # v))"

definition valid_line :: "string \<Rightarrow> bool" where
  "valid_line l \<longleftrightarrow>
     CHR '';'' \<in> set l \<and> valid_value (drop 1 (dropWhile (\<lambda>c. c \<noteq> CHR '';'') l))"

definition valid_file :: "string \<Rightarrow> bool" where
  "valid_file data \<longleftrightarrow> (\<forall>l \<in> set (scanner_lines data). valid_line l)"

text \<open>A valid file of one line of 70004 bytes: longer than the scanner's buffer, shorter than a chunk.\<close>

definition long_name_file :: os_File where
  "long_name_file =
     \<lparr>contents = replicate 70000 CHR ''a'' @ '';1.0'' @ [newline], stat_error = False\<rparr>"

section \<open>Auxiliary definitions for the comparison of the two paths\<close>

text \<open>
  The entry that the worker takes from a piece of its chunk, if any, and the entries that
  it takes from a string; the bytes of a range; the strings whose pieces are empty or
  valid lines, and those on whose pieces \<open>processLine\<close> does not panic; the sum of two
  optional locations; the mapping that the worker of a range sends.
\<close>

abbreviation accept :: "string \<Rightarrow> (string \<times> Location) option" where
  "accept \<equiv> (\<lambda>p. case processLine p of Inl e \<Rightarrow> None | Inr r \<Rightarrow> r)"

definition accepted :: "string \<Rightarrow> (string \<times> Location) list" where
  "accepted x = List.map_filter accept (strings_Split x newline)"

definition slice :: "string \<Rightarrow> int \<times> int \<Rightarrow> string" where
  "slice data c = take (nat (snd c - fst c)) (drop (nat (fst c)) data)"

definition pieces_ok :: "string \<Rightarrow> bool" where
  "pieces_ok x \<longleftrightarrow> (\<forall>q \<in> set (strings_Split x newline). q = [] \<or> valid_line q)"

definition safe_pieces :: "string \<Rightarrow> bool" where
  "safe_pieces x \<longleftrightarrow> (\<forall>q \<in> set (strings_Split x newline). \<exists>r. processLine q = Inr r)"

fun oplus :: "Location option \<Rightarrow> Location option \<Rightarrow> Location option" where
  "oplus None b = b"
| "oplus (Some a) None = Some a"
| "oplus (Some a) (Some b) = Some (merge_Location a b)"

definition chunk_map :: "string \<Rightarrow> int \<times> int \<Rightarrow> locationMap" where
  "chunk_map data c = (case processChunk (slice data c) of Inl e \<Rightarrow> [] | Inr m \<Rightarrow> m)"


text \<open>
  A file whose names come in no order, one of them twice, and a file with a line whose
  value has one byte.
\<close>

definition unsorted_file :: os_File where
  "unsorted_file =
     \<lparr>contents = ''b;1.0'' @ [newline] @ ''a;2.0'' @ [newline] @ ''ab;-3.5'' @ [newline]
                   @ ''a;4.1'' @ [newline],
      stat_error = False\<rparr>"

definition short_value_file :: os_File where
  "short_value_file =
     \<lparr>contents = ''b;2.0'' @ [newline] @ ''a;1'' @ [newline], stat_error = False\<rparr>"

section \<open>Properties of the parser\<close>

lemma is_digit_not_minus: "is_digit c \<Longrightarrow> c \<noteq> CHR ''-''"
  by (auto simp: is_digit_def)

lemma is_digit_not_dot: "is_digit c \<Longrightarrow> c \<noteq> CHR ''.''"
  by (auto simp: is_digit_def)

lemma parseNumber_one_digit:
  assumes "is_digit a" "is_digit b"
  shows "parseNumber (sign_prefix neg @ [a, CHR ''.'', b])
           = Inr (signed neg (10 * digit_value a + digit_value b))"
  using is_digit_not_minus [OF assms(1)]
  by (cases neg) (simp_all add: parseNumber_def byte_at_def sign_prefix_def signed_def digit_value_def)

lemma parseNumber_two_digits:
  assumes "is_digit a" "is_digit b" "is_digit c"
  shows "parseNumber (sign_prefix neg @ [a, b, CHR ''.'', c])
           = Inr (signed neg (100 * digit_value a + 10 * digit_value b + digit_value c))"
  using is_digit_not_minus [OF assms(1)] is_digit_not_dot [OF assms(2)]
  by (cases neg) (simp_all add: parseNumber_def byte_at_def sign_prefix_def signed_def digit_value_def)

text \<open>
  Claim C4. For every string of the form \<open>[-]D.D\<close> or \<open>[-]DD.D\<close>, where each \<open>D\<close> is a
  decimal digit, \<open>parseNumber\<close> returns the signed number of tenths that the string
  denotes; \<open>parseNumber "12.3"\<close> is 123 and \<open>parseNumber "-3.4"\<close> is -34.
\<close>

theorem parseNumber_tenths:
  "(is_digit a \<and> is_digit b \<longrightarrow>
      parseNumber (sign_prefix neg @ [a, CHR ''.'', b])
        = Inr (signed neg (10 * digit_value a + digit_value b)))
   \<and> (is_digit a \<and> is_digit b \<and> is_digit c \<longrightarrow>
      parseNumber (sign_prefix neg @ [a, b, CHR ''.'', c])
        = Inr (signed neg (100 * digit_value a + 10 * digit_value b + digit_value c)))
   \<and> parseNumber ''12.3'' = Inr 123
   \<and> parseNumber ''-3.4'' = Inr (- 34)"
proof (intro conjI impI)
  show "parseNumber ''12.3'' = Inr 123"
    by (simp add: parseNumber_def byte_at_def byte_def)
  show "parseNumber ''-3.4'' = Inr (- 34)"
    by (simp add: parseNumber_def byte_at_def byte_def)
qed (simp_all add: parseNumber_one_digit parseNumber_two_digits)

theorem parseNumber_tenths_witness:
  "is_digit CHR ''7'' \<and> is_digit CHR ''0'' \<and> is_digit CHR ''9''
   \<and> parseNumber ''-7.0'' = Inr (- 70) \<and> parseNumber ''70.9'' = Inr 709"
  using parseNumber_tenths [of "CHR ''7''" "CHR ''0''" True "CHR ''9''"]
    parseNumber_tenths [of "CHR ''7''" "CHR ''0''" False "CHR ''9''"]
  by (simp add: is_digit_def sign_prefix_def signed_def digit_value_def byte_def)

section \<open>The completeness check of the worker\<close>

text \<open>
  The values of this shape (a sign, a dot and one byte) are the only ones that pass the
  check and make \<open>parseNumber\<close> panic.
\<close>

lemma parseNumber_in_bounds_iff:
  assumes "3 \<le> length val" "val ! (length val - 2) = CHR ''.''"
  shows "(\<exists>v. parseNumber val = Inr v) \<longleftrightarrow> \<not> (length val = 3 \<and> val ! 0 = CHR ''-'')"
proof (cases "val ! 0 = CHR ''-''")
  case True
  show ?thesis
  proof (cases "length val = 3")
    case True
    with \<open>val ! 0 = CHR ''-''\<close> assms show ?thesis
      by (auto simp: parseNumber_def byte_at_def Let_def numeral_3_eq_3)
  next
    case False
    show ?thesis
    proof (cases "length val = 4")
      case True
      with \<open>val ! 0 = CHR ''-''\<close> assms show ?thesis
        by (auto simp: parseNumber_def byte_at_def Let_def numeral_2_eq_2)
    next
      case four: False
      with False \<open>val ! 0 = CHR ''-''\<close> assms show ?thesis
        by (auto simp: parseNumber_def byte_at_def Let_def split: sum.splits)
    qed
  qed
next
  case False
  with assms show ?thesis
    by (auto simp: parseNumber_def byte_at_def Let_def split: sum.splits)
qed

text \<open>
  Claim C6. The check of \<^verbatim>\<open>processLine\<close> (at least 3 bytes, the second-to-last a dot)
  is to keep every index of \<open>parseNumber\<close> inside the string. It does not: the value
  \<open>-.5\<close> passes the check, and after the sign is cut \<open>parseNumber\<close> reads index 3 of a
  string of 2 bytes. The worker of a chunk with the line \<open>a;-.5\<close> panics.
\<close>

theorem parseNumber_panics_at_sign_dot:
  "length ''-.5'' \<ge> 3 \<and> ''-.5'' ! (length ''-.5'' - 2) = CHR ''.''
   \<and> parseNumber ''-.5'' = Inl IndexOutOfRange
   \<and> processLine ''a;-.5'' = Inl IndexOutOfRange
   \<and> processChunk (''a;-.5'' @ [newline]) = Inl IndexOutOfRange"
  by (simp add: parseNumber_def byte_at_def processLine_def strings_Index_def processChunk_def processChunk_line_def)

section \<open>The merge fold\<close>

lemma merge_Location_commute: "merge_Location a b = merge_Location b a"
  by (simp add: merge_Location_def)

lemma merge_Location_assoc: "merge_Location (merge_Location a b) c = merge_Location a (merge_Location b c)"
  by (simp add: merge_Location_def)

lemma madd_swap: "madd (madd acc v) w = madd (madd acc w) v"
  by (cases acc) (simp_all add: merge_Location_def)

lemma key_step_commute: "key_step k e1 \<circ> key_step k e2 = key_step k e2 \<circ> key_step k e1"
  by (auto simp: key_step_def fun_eq_iff madd_swap)

lemma merge_entry_map_of:
  "map_of (snd (merge_entry e st)) k = key_step k e (map_of (snd st) k)"
  by (cases e; cases st)
     (auto simp: merge_entry_def key_step_def update_conv' split: option.splits)

lemma fold_merge_entry_map_of:
  "map_of (snd (fold merge_entry es st)) k = fold (key_step k) es (map_of (snd st) k)"
  by (induction es arbitrary: st) (simp_all add: merge_entry_map_of)

lemma fold_merge_entry_mset:
  assumes "mset es = mset es'"
  shows "map_of (snd (fold merge_entry es st)) = map_of (snd (fold merge_entry es' st))"
proof
  fix k
  have "fold (key_step k) es = fold (key_step k) es'"
    by (rule fold_multiset_equiv [OF _ assms]) (rule key_step_commute)
  then show "map_of (snd (fold merge_entry es st)) k = map_of (snd (fold merge_entry es' st)) k"
    by (simp add: fold_merge_entry_map_of)
qed

lemma merge_entry_locations:
  "set (fst (merge_entry e st))
     = set (fst st) \<union> (if map_of (snd st) (fst e) = None then {fst e} else {})"
  by (cases e; cases st) (auto simp: merge_entry_def split: option.splits)

lemma merge_entry_dom:
  "dom (map_of (snd (merge_entry e st))) = insert (fst e) (dom (map_of (snd st)))"
  by (cases e; cases st) (auto simp: merge_entry_def update_conv' split: option.splits)

lemma fold_merge_entry_locations:
  "set (fst (fold merge_entry es st))
     = set (fst st) \<union> (fst ` set es - dom (map_of (snd st)))"
proof (induction es arbitrary: st)
  case Nil
  show ?case by simp
next
  case (Cons e es)
  show ?case
    by (simp add: Cons.IH merge_entry_locations merge_entry_dom) (auto simp: dom_def)
qed

lemma mset_reorder: "mset (reorder ns xs) = mset xs"
proof (induction ns arbitrary: xs)
  case Nil
  show ?case by simp
next
  case (Cons n ns)
  show ?case
  proof (cases "xs = []")
    case True
    then show ?thesis by simp
  next
    case False
    define i where "i = n mod length xs"
    from False have i: "i < length xs" by (simp add: i_def)
    have "mset xs = mset (take i xs @ xs ! i # drop (Suc i) xs)"
      using id_take_nth_drop [OF i] by simp
    with False show ?thesis
      by (simp add: Cons.IH i_def)
  qed
qed

lemma mset_ranged: "mset (ranged orders ms) = mset (concat ms)"
  by (induction ms arbitrary: orders) (simp_all add: mset_reorder)

lemma merge_loop_Background:
  "merge_loop i Background orders ms st = Inr (fold merge_entry (ranged orders ms) st)"
  by (induction ms arbitrary: i orders st) simp_all

text \<open>
  Claim C8. The fold of the merge consumer is commutative and associative on the
  locations of a key, and whatever the order in which the mappings of the chunks arrive,
  the order in which each is ranged over and the way the entries are grouped into
  mappings, the merge loop ends with the same location for every key and the same set of
  names.
\<close>

theorem merge_order_independent:
  "merge_Location a b = merge_Location b a
   \<and> merge_Location (merge_Location a b) c = merge_Location a (merge_Location b c)
   \<and> (mset (concat ms) = mset (concat ms') \<longrightarrow>
        (\<exists>l1 m1 l2 m2.
           merge_loop i Background o1 ms st = Inr (l1, m1)
           \<and> merge_loop j Background o2 ms' st = Inr (l2, m2)
           \<and> map_of m1 = map_of m2 \<and> set l1 = set l2))"
proof (intro conjI impI)
  assume eq: "mset (concat ms) = mset (concat ms')"
  let ?s1 = "fold merge_entry (ranged o1 ms) st"
  let ?s2 = "fold merge_entry (ranged o2 ms') st"
  have m: "mset (ranged o1 ms) = mset (ranged o2 ms')"
    by (simp add: mset_ranged eq)
  have maps: "map_of (snd ?s1) = map_of (snd ?s2)"
    by (rule fold_merge_entry_mset [OF m])
  have "set (ranged o1 ms) = set (ranged o2 ms')"
    using m by (rule mset_eq_setD)
  then have locs: "set (fst ?s1) = set (fst ?s2)"
    by (simp add: fold_merge_entry_locations)
  have "merge_loop i Background o1 ms st = Inr (fst ?s1, snd ?s1)"
    "merge_loop j Background o2 ms' st = Inr (fst ?s2, snd ?s2)"
    by (simp_all add: merge_loop_Background)
  with maps locs
  show "\<exists>l1 m1 l2 m2.
           merge_loop i Background o1 ms st = Inr (l1, m1)
           \<and> merge_loop j Background o2 ms' st = Inr (l2, m2)
           \<and> map_of m1 = map_of m2 \<and> set l1 = set l2"
    by blast
qed (rule merge_Location_commute, rule merge_Location_assoc)

theorem merge_order_independent_witness:
  "\<exists>l1 m1 l2 m2.
     merge_loop 0 Background []
       [[(''a'', \<lparr>Min = 1, Max = 1, Total = 1, Count = 1\<rparr>)],
        [(''b'', \<lparr>Min = 2, Max = 5, Total = 7, Count = 2\<rparr>),
         (''a'', \<lparr>Min = - 3, Max = 4, Total = 1, Count = 2\<rparr>)]] ([], []) = Inr (l1, m1)
     \<and> merge_loop 0 Background [[1]]
       [[(''a'', \<lparr>Min = - 3, Max = 4, Total = 1, Count = 2\<rparr>),
         (''b'', \<lparr>Min = 2, Max = 5, Total = 7, Count = 2\<rparr>)],
        [(''a'', \<lparr>Min = 1, Max = 1, Total = 1, Count = 1\<rparr>)]] ([], []) = Inr (l2, m2)
     \<and> map_of m1 = map_of m2 \<and> set l1 = set l2"
  using merge_order_independent
    [of undefined undefined undefined
      "[[(''a'', \<lparr>Min = 1, Max = 1, Total = 1, Count = 1\<rparr>)],
        [(''b'', \<lparr>Min = 2, Max = 5, Total = 7, Count = 2\<rparr>),
         (''a'', \<lparr>Min = - 3, Max = 4, Total = 1, Count = 2\<rparr>)]]"
      "[[(''a'', \<lparr>Min = - 3, Max = 4, Total = 1, Count = 2\<rparr>),
         (''b'', \<lparr>Min = 2, Max = 5, Total = 7, Count = 2\<rparr>)],
        [(''a'', \<lparr>Min = 1, Max = 1, Total = 1, Count = 1\<rparr>)]]"
      0 "[]" "([], [])" 0 "[[1]]"]
  by simp

section \<open>A failure of Stat\<close>

lemma reorder_Nil [simp]: "reorder ns [] = []"
  by (cases ns) simp_all

lemma createResult_empty: "createResult [] [] = Inr ''{}''"
  by (simp add: createResult_def)

lemma chunk_loop_empty: "chunk_loop cs [] 0 = Some []"
  by (subst chunk_loop.simps) simp

text \<open>
  Claim C10. When \<^verbatim>\<open>Stat\<close> fails on the opened file, \<^verbatim>\<open>run\<close> with concurrency returns
  the string \<open>{}\<close> and no error, under a context that is never cancelled: the error of
  the orchestrator is dropped and the completion signal still sent. An empty file gives
  the same result, so that the caller cannot tell the two apart.
\<close>

theorem stat_failure_is_silent:
  "fs filePath = Some f \<and> stat_error f \<longrightarrow>
     run fs Background sched filePath True = Some (Inr ''{}'')
     \<and> run (fs(filePath \<mapsto> \<lparr>contents = [], stat_error = False\<rparr>)) Background sched filePath True
         = Some (Inr ''{}'')"
  by (simp add: run_def run_with_def parseFileWithConcurrency_def lineOrchestrator_def
      createResult_empty chunk_loop_empty)

theorem stat_failure_is_silent_witness:
  "run [''m.txt'' \<mapsto> \<lparr>contents = ''a;1.0'', stat_error = True\<rparr>] Background
      \<lparr>arrival = [], ranging = []\<rparr> ''m.txt'' True = Some (Inr ''{}'')
   \<and> run [''m.txt'' \<mapsto> \<lparr>contents = [], stat_error = False\<rparr>] Background
      \<lparr>arrival = [], ranging = []\<rparr> ''m.txt'' True = Some (Inr ''{}'')"
  using stat_failure_is_silent
    [of "[''m.txt'' \<mapsto> \<lparr>contents = ''a;1.0'', stat_error = True\<rparr>]" "''m.txt''"
        "\<lparr>contents = ''a;1.0'', stat_error = True\<rparr>" "\<lparr>arrival = [], ranging = []\<rparr>"]
  by simp

section \<open>The numbers of the output\<close>







lemma decimal_digit: "n < 10 \<Longrightarrow> decimal n = [''0123456789'' ! n]"
  by (simp add: decimal.simps)

lemma decimal_step:
  "10 \<le> n \<Longrightarrow> decimal n = decimal (n div 10) @ [''0123456789'' ! (n mod 10)]"
  by (subst decimal.simps) simp

text \<open>The evaluation of the program on a file of one chunk.\<close>

lemma reorder_single [simp]: "reorder ns [x] = [x]"
  by (cases ns) simp_all

lemma findNextLineBoundary_stop:
  "start < 0 \<or> int (length data) \<le> start \<or> data ! nat start = newline
   \<Longrightarrow> findNextLineBoundary data start = start"
  by (subst findNextLineBoundary.simps) simp

lemma findNextLineBoundary_back:
  "0 \<le> start \<Longrightarrow> start < int (length data) \<Longrightarrow> data ! nat start \<noteq> newline
   \<Longrightarrow> findNextLineBoundary data start = findNextLineBoundary data (start - 1)"
  by (subst findNextLineBoundary.simps) simp

lemma chunk_loop_done:
  "int (length data) \<le> start \<Longrightarrow> chunk_loop cs data start = Some []"
  by (subst chunk_loop.simps) simp

lemma chunk_loop_whole_file:
  assumes "data \<noteq> []" "length data \<le> cs"
  shows "chunk_loop cs data 0 = Some [(0, int (length data))]"
proof -
  have e: "(if 0 + int cs > int (length data) then int (length data) else 0 + int cs)
             = int (length data)"
    using assms by simp
  show ?thesis
    apply (subst chunk_loop.simps)
    apply (simp only: e)
    using assms apply (simp add: findNextLineBoundary_stop chunk_loop_done)
    done
qed

lemma processChunk_ham:
  "processChunk (contents ham_file)
     = Inr [(''ham'', \<lparr>Min = 50, Max = 336, Total = 641, Count = 3\<rparr>)]"
  by (simp add: ham_file_def processChunk_def processChunk_line_def processLine_def
       strings_Index_def parseNumber_def byte_at_def byte_def Let_def)

lemma parseFile_ham:
  "parseFile ham_file = Inr ([''ham''], [(''ham'', \<lparr>Min = 50, Max = 336, Total = 641, Count = 3\<rparr>)])"
  by (simp add: ham_file_def parseFile_def scanner_lines_def
       MaxScanTokenSize_def dropCR_def parseFile_line_def strings_Index_def
       parseNumber_def byte_at_def byte_def Let_def)

lemma createResult_ham:
  "createResult [''ham''] [(''ham'', \<lparr>Min = 50, Max = 336, Total = 641, Count = 3\<rparr>)]
     = Inr ''{ham=5.0/21.4/33.6}''"
  by (simp add: createResult_def write_location_def float64_of_int_def round_half_even_def
       decimal_digit decimal_step)

lemma parseFileWithConcurrency_ham:
  "parseFileWithConcurrency chunkSize Background sched ham_file
     = Some (Inr ([''ham''], [(''ham'', \<lparr>Min = 50, Max = 336, Total = 641, Count = 3\<rparr>)]))"
proof -
  have "chunk_loop chunkSize (contents ham_file) 0 = Some [(0, int (length (contents ham_file)))]"
    by (rule chunk_loop_whole_file) (simp_all add: ham_file_def chunkSize_def)
  then have "lineOrchestrator chunkSize ham_file = Some (Inr [processChunk (contents ham_file)])"
    by (simp add: lineOrchestrator_def chunk_worker_def)
       (simp add: ham_file_def)
  then show ?thesis
    by (simp add: parseFileWithConcurrency_def processChunk_ham merge_entry_def)
qed

text \<open>Two locations with a negative average: -2.5 is rounded to -3, and -1/3 to -0.\<close>

lemma write_location_example:
  "write_location ''k'' \<lparr>Min = - 15, Max = 7, Total = - 5, Count = 2\<rparr> = ''k=-1.5/-0.3/0.7''"
  by (simp add: write_location_def float64_of_int_def round_half_even_def
       decimal_digit decimal_step)

lemma write_location_negative_zero:
  "write_location ''k'' \<lparr>Min = - 1, Max = 0, Total = - 1, Count = 3\<rparr> = ''k=-0.1/-0.0/0.0''"
  by (simp add: write_location_def float64_of_int_def round_half_even_def
       decimal_digit decimal_step)

section \<open>The order of the output\<close>

lemma strings_Index_none: "strings_Index s c = - 1 \<longleftrightarrow> c \<notin> set s"
  by (simp add: strings_Index_def)

lemma names_match_update:
  assumes "names_match (locations, m)"
  shows "names_match
           (if map_of m name = None then locations @ [name] else locations,
            AList.update name v m)"
  using assms by (auto simp: names_match_def update_conv')

lemma parseFile_line_names:
  assumes "parseFile_line line st = Inr st'" "names_match st"
  shows "names_match st'"
proof -
  obtain locations m where st: "st = (locations, m)" by (cases st)
  define name where "name = take (nat (strings_Index line CHR '';'')) line"
  note upd = names_match_update [OF assms(2) [unfolded st], of name]
  show ?thesis
  proof (cases "strings_Index line CHR '';'' = - 1")
    case True
    with assms show ?thesis by (simp add: parseFile_line_def st)
  next
    case False
    with assms(1) obtain t
      where t: "parseNumber (drop (nat (strings_Index line CHR '';'' + 1)) line) = Inr t"
      by (auto simp: parseFile_line_def st Let_def split: sum.splits)
    show ?thesis
    proof (cases "map_of m name")
      case None
      with assms(1) False t
      have "\<exists>v. st' = (locations @ [name], AList.update name v m)"
        by (auto simp add: parseFile_line_def st Let_def name_def)
      with None upd show ?thesis by auto
    next
      case (Some loc)
      with assms(1) False t
      have "\<exists>v. st' = (locations, AList.update name v m)"
        by (auto simp add: parseFile_line_def st Let_def name_def)
      with Some upd show ?thesis by auto
    qed
  qed
qed

lemma parseFile_loop_names:
  "parseFile_loop tokens st = Inr st' \<Longrightarrow> names_match st \<Longrightarrow> names_match st'"
proof (induction tokens arbitrary: st)
  case Nil
  then show ?case by simp
next
  case (Cons token rest)
  then show ?case
    by (auto split: if_splits sum.splits dest: parseFile_line_names)
qed

lemma fst_merge_entry:
  "fst (merge_entry e st)
     = (if map_of (snd st) (fst e) = None then fst st @ [fst e] else fst st)"
  by (cases st; cases e) (auto simp: merge_entry_def split: option.splits)

lemma merge_entry_names:
  assumes "names_match st"
  shows "names_match (merge_entry e st)"
proof -
  from assms have d: "distinct (fst st)" and s: "set (fst st) = dom (map_of (snd st))"
    by (simp_all add: names_match_def)
  have "distinct (fst (merge_entry e st))"
    using d s by (auto simp: fst_merge_entry)
  moreover have "set (fst (merge_entry e st)) = dom (map_of (snd (merge_entry e st)))"
    unfolding merge_entry_dom using s by (auto simp: fst_merge_entry)
  ultimately show ?thesis by (simp add: names_match_def)
qed

lemma fold_merge_entry_names: "names_match st \<Longrightarrow> names_match (fold merge_entry es st)"
  by (induction es arbitrary: st) (simp_all add: merge_entry_names)

lemma merge_loop_names:
  "merge_loop i ctx orders ms st = Inr st' \<Longrightarrow> names_match st \<Longrightarrow> names_match st'"
proof (induction ms arbitrary: i orders st)
  case Nil
  then show ?case by (simp split: if_splits)
next
  case (Cons m ms)
  let ?st = "fold merge_entry
               (reorder (case orders of [] \<Rightarrow> [] | order # _ \<Rightarrow> order) m) st"
  from Cons.prems(1) have "merge_loop (i + 1) ctx (tl orders) ms ?st = Inr st'"
    by (simp split: if_splits)
  moreover have "names_match ?st"
    by (rule fold_merge_entry_names [OF Cons.prems(2)])
  ultimately show ?case by (rule Cons.IH)
qed

lemma names_match_empty: "names_match ([], [])"
  by (simp add: names_match_def)

lemma parseFile_names: "parseFile f = Inr st \<Longrightarrow> names_match st"
  unfolding parseFile_def by (rule parseFile_loop_names [OF _ names_match_empty])

lemma parseFileWithConcurrency_names:
  "parseFileWithConcurrency cs ctx sched f = Some (Inr st) \<Longrightarrow> names_match st"
  unfolding parseFileWithConcurrency_def
  by (auto simp: names_match_empty split: option.splits sum.splits Context.splits if_splits
           dest: merge_loop_names [OF _ names_match_empty])

lemma join_entries_Cons:
  "join_entries (e # es) = e @ (if es = [] then [] else '', '' @ join_entries es)"
  by (cases es) simp_all

lemma createResult_loop_all:
  "\<forall>k \<in> set ks. k \<in> dom (map_of m) \<Longrightarrow>
   createResult_loop i ks m buffer
     = Inr (buffer @ (if 0 < i \<and> ks \<noteq> [] then '', '' else [])
              @ join_entries (map (\<lambda>k. write_location k (the (map_of m k))) ks))"
proof (induction ks arbitrary: i buffer)
  case Nil
  show ?case by simp
next
  case (Cons k ks)
  from Cons.prems obtain d where d: "map_of m k = Some d" by auto
  from Cons.prems have rest: "\<forall>k \<in> set ks. k \<in> dom (map_of m)" by simp
  show ?case
    by (simp add: d Cons.IH [OF rest] join_entries_Cons del: join_entries.simps(2,3))
qed

lemma createResult_sorted:
  assumes "names_match (locations, locationMap)"
  shows "sorted_wrt (<) (sort locations) \<and> set (sort locations) = set locations
         \<and> createResult locations locationMap
             = Inr (''{'' @ join_entries
                      (map (\<lambda>k. write_location k (the (map_of locationMap k))) (sort locations))
                    @ ''}'')"
proof -
  from assms have dist: "distinct locations" and dom: "set locations = dom (map_of locationMap)"
    by (simp_all add: names_match_def)
  have "sorted_wrt (<) (sort locations)"
    using dist by (simp add: strict_sorted_iff)
  moreover have "\<forall>k \<in> set (sort locations). k \<in> dom (map_of locationMap)"
    using dom by simp
  then have "createResult locations locationMap
             = Inr (''{'' @ join_entries
                      (map (\<lambda>k. write_location k (the (map_of locationMap k))) (sort locations))
                    @ ''}'')"
    by (simp add: createResult_def createResult_loop_all)
  ultimately show ?thesis by simp
qed

text \<open>The file of the names \<open>b\<close>, \<open>a\<close> and \<open>ab\<close>.\<close>

lemma parseFile_unsorted:
  "parseFile unsorted_file
     = Inr ([''b'', ''a'', ''ab''],
            [(''b'', \<lparr>Min = 10, Max = 10, Total = 10, Count = 1\<rparr>),
             (''a'', \<lparr>Min = 20, Max = 41, Total = 61, Count = 2\<rparr>),
             (''ab'', \<lparr>Min = - 35, Max = - 35, Total = - 35, Count = 1\<rparr>)])"
  by (simp add: unsorted_file_def parseFile_def scanner_lines_def
       MaxScanTokenSize_def dropCR_def parseFile_line_def strings_Index_def
       parseNumber_def byte_at_def byte_def Let_def)

lemma createResult_unsorted:
  "createResult [''b'', ''a'', ''ab'']
     [(''b'', \<lparr>Min = 10, Max = 10, Total = 10, Count = 1\<rparr>),
      (''a'', \<lparr>Min = 20, Max = 41, Total = 61, Count = 2\<rparr>),
      (''ab'', \<lparr>Min = - 35, Max = - 35, Total = - 35, Count = 1\<rparr>)]
     = Inr ''{a=2.0/3.1/4.1, ab=-3.5/-3.5/-3.5, b=1.0/1.0/1.0}''"
  by (simp add: createResult_def write_location_def float64_of_int_def round_half_even_def
       decimal_digit decimal_step)

text \<open>
  Claim C9. For the list of names and the mapping that either aggregation path returns,
  the string that \<^verbatim>\<open>createResult\<close> returns is an opening brace, the entries joined by
  a comma and a space, and a closing brace; each entry is a name, an equals sign and the
  three numbers of the name; every name of the list, which are the keys of the mapping,
  has one entry; and the names of the entries follow each other in strictly ascending
  order, byte by byte (a proper prefix first), whatever the order in which the lines came
  or the names were found. For the lines \<open>b;1.0\<close>, \<open>a;2.0\<close>, \<open>ab;-3.5\<close> and \<open>a;4.1\<close>
  the names are found in the order \<open>b\<close>, \<open>a\<close>, \<open>ab\<close> and written in the order \<open>a\<close>,
  \<open>ab\<close>, \<open>b\<close>.
\<close>

theorem output_keys_ascending:
  "parseFile f = Inr (locations, locationMap)
     \<or> parseFileWithConcurrency cs ctx sched f = Some (Inr (locations, locationMap))
   \<longrightarrow> (\<exists>keys. sorted_wrt (<) keys \<and> set keys = set locations
          \<and> set keys = dom (map_of locationMap)
          \<and> createResult locations locationMap
              = Inr (''{''
                     @ join_entries
                         (map (\<lambda>k. k @ ''=''
                                 @ FormatFloat_f1
                                     (float64_div
                                        (float64_of_int (Min (the (map_of locationMap k))))
                                        (Finite False 10))
                                 @ ''/''
                                 @ FormatFloat_f1
                                     (float64_div
                                        (math_Round
                                           (float64_div
                                              (float64_of_int (Total (the (map_of locationMap k))))
                                              (float64_of_int (Count (the (map_of locationMap k))))))
                                        (Finite False 10))
                                 @ ''/''
                                 @ FormatFloat_f1
                                     (float64_div
                                        (float64_of_int (Max (the (map_of locationMap k))))
                                        (Finite False 10)))
                            keys)
                     @ ''}''))"
proof
  assume "parseFile f = Inr (locations, locationMap)
     \<or> parseFileWithConcurrency cs ctx sched f = Some (Inr (locations, locationMap))"
  then have names: "names_match (locations, locationMap)"
    by (auto dest: parseFile_names parseFileWithConcurrency_names)
  then have "set (sort locations) = dom (map_of locationMap)"
    by (simp add: names_match_def)
  with createResult_sorted [OF names, unfolded write_location_def]
  show "\<exists>keys. sorted_wrt (<) keys \<and> set keys = set locations
          \<and> set keys = dom (map_of locationMap)
          \<and> createResult locations locationMap
              = Inr (''{''
                     @ join_entries
                         (map (\<lambda>k. k @ ''=''
                                 @ FormatFloat_f1
                                     (float64_div
                                        (float64_of_int (Min (the (map_of locationMap k))))
                                        (Finite False 10))
                                 @ ''/''
                                 @ FormatFloat_f1
                                     (float64_div
                                        (math_Round
                                           (float64_div
                                              (float64_of_int (Total (the (map_of locationMap k))))
                                              (float64_of_int (Count (the (map_of locationMap k))))))
                                        (Finite False 10))
                                 @ ''/''
                                 @ FormatFloat_f1
                                     (float64_div
                                        (float64_of_int (Max (the (map_of locationMap k))))
                                        (Finite False 10)))
                            keys)
                     @ ''}'')"
    by (intro exI [of _ "sort locations"]) simp
qed

theorem output_keys_ascending_witness:
  "(let m = [(''b'', \<lparr>Min = 10, Max = 10, Total = 10, Count = 1\<rparr>),
             (''a'', \<lparr>Min = 20, Max = 41, Total = 61, Count = 2\<rparr>),
             (''ab'', \<lparr>Min = - 35, Max = - 35, Total = - 35, Count = 1\<rparr>)]
    in parseFile unsorted_file = Inr ([''b'', ''a'', ''ab''], m)
       \<and> createResult [''b'', ''a'', ''ab''] m
           = Inr ''{a=2.0/3.1/4.1, ab=-3.5/-3.5/-3.5, b=1.0/1.0/1.0}''
       \<and> (\<exists>keys. sorted_wrt (<) keys \<and> set keys = {''b'', ''a'', ''ab''}
             \<and> ''{a=2.0/3.1/4.1, ab=-3.5/-3.5/-3.5, b=1.0/1.0/1.0}''
                 = ''{''
                   @ join_entries
                       (map (\<lambda>k. k @ ''=''
                               @ FormatFloat_f1
                                   (float64_div (float64_of_int (Min (the (map_of m k))))
                                      (Finite False 10))
                               @ ''/''
                               @ FormatFloat_f1
                                   (float64_div
                                      (math_Round
                                         (float64_div
                                            (float64_of_int (Total (the (map_of m k))))
                                            (float64_of_int (Count (the (map_of m k))))))
                                      (Finite False 10))
                               @ ''/''
                               @ FormatFloat_f1
                                   (float64_div (float64_of_int (Max (the (map_of m k))))
                                      (Finite False 10)))
                          keys)
                   @ ''}''))"
  using output_keys_ascending [of unsorted_file "[''b'', ''a'', ''ab'']"
      "[(''b'', \<lparr>Min = 10, Max = 10, Total = 10, Count = 1\<rparr>),
        (''a'', \<lparr>Min = 20, Max = 41, Total = 61, Count = 2\<rparr>),
        (''ab'', \<lparr>Min = - 35, Max = - 35, Total = - 35, Count = 1\<rparr>)]"]
  unfolding Let_def parseFile_unsorted createResult_unsorted
  by simp

section \<open>Lines that are skipped\<close>

lemma parseFile_line_no_delimiter:
  "CHR '';'' \<notin> set line \<Longrightarrow> parseFile_line line st = Inr st"
  by (cases st) (simp add: parseFile_line_def strings_Index_def)

lemma processLine_no_delimiter:
  "CHR '';'' \<notin> set line \<Longrightarrow> processLine line = Inr None"
  by (simp add: processLine_def strings_Index_def)

lemma takeWhile_until:
  "c \<notin> set name \<Longrightarrow> takeWhile (\<lambda>x. x \<noteq> c) (name @ c # val) = name"
  by (induction name) auto

lemma strings_Index_first:
  "c \<notin> set name \<Longrightarrow> strings_Index (name @ c # val) c = int (length name)"
  by (simp add: strings_Index_def takeWhile_until)

lemma processLine_incomplete:
  assumes "CHR '';'' \<notin> set name" "length val < 3 \<or> val ! (length val - 2) \<noteq> CHR ''.''"
  shows "processLine (name @ CHR '';'' # val) = Inr None"
  using assms by (auto simp: processLine_def strings_Index_first Let_def)

lemma processChunk_line_skip: "processLine line = Inr None \<Longrightarrow> processChunk_line line m = Inr m"
  by (simp add: processChunk_line_def)

lemma processChunk_loop_append:
  "processChunk_loop (xs @ ys) m
     = (case processChunk_loop xs m of Inl e \<Rightarrow> Inl e | Inr m' \<Rightarrow> processChunk_loop ys m')"
  by (induction xs arbitrary: m) (simp_all split: sum.splits)

lemma parseFile_loop_append:
  "parseFile_loop (xs @ ys) st
     = (case parseFile_loop xs st of Inl e \<Rightarrow> Inl e | Inr st' \<Rightarrow> parseFile_loop ys st')"
  by (induction xs arbitrary: st) (simp_all split: sum.splits)

lemma dropCR_subset: "set (dropCR l) \<subseteq> set l"
  by (auto simp: dropCR_def dest: in_set_butlastD)

lemma length_dropCR: "length (dropCR l) \<le> length l"
  by (simp add: dropCR_def)

lemma processChunk_loop_skip:
  assumes "processLine line = Inr None"
  shows "processChunk_loop (before @ line # after) m = processChunk_loop (before @ after) m"
  using processChunk_line_skip [OF assms]
  by (simp add: processChunk_loop_append split: sum.splits)

text \<open>
  What both loops skip: a line without a delimiter (an empty line is one) leaves the state
  as it is, and the loop goes on with the next line; the scanner of the sequential
  aggregator stops with an error at a line of 65536 bytes or more. The chunk worker also
  skips a line whose value is shorter than 3 bytes or has no dot as its second-to-last
  byte.
\<close>

lemma skipped_lines:
  "(CHR '';'' \<notin> set line \<longrightarrow>
      parseFile_line line st = Inr st \<and> processChunk_line line m = Inr m
      \<and> processChunk_loop (before @ line # after) m = processChunk_loop (before @ after) m
      \<and> (length line < MaxScanTokenSize \<longrightarrow>
           parseFile_loop (tokens @ line # rest) st = parseFile_loop (tokens @ rest) st))
   \<and> (CHR '';'' \<notin> set name \<and> (length val < 3 \<or> val ! (length val - 2) \<noteq> CHR ''.'') \<longrightarrow>
      processChunk_line (name @ CHR '';'' # val) m = Inr m
      \<and> processChunk_loop (before @ (name @ CHR '';'' # val) # after) m
          = processChunk_loop (before @ after) m)"
proof (intro conjI impI)
  assume "CHR '';'' \<notin> set line"
  then show "parseFile_line line st = Inr st" by (rule parseFile_line_no_delimiter)
next
  assume "CHR '';'' \<notin> set line"
  then show "processChunk_line line m = Inr m"
    by (simp add: processChunk_line_skip processLine_no_delimiter)
next
  assume "CHR '';'' \<notin> set line"
  then show "processChunk_loop (before @ line # after) m = processChunk_loop (before @ after) m"
    by (intro processChunk_loop_skip processLine_no_delimiter)
next
  assume a: "CHR '';'' \<notin> set line" and len: "length line < MaxScanTokenSize"
  then have "CHR '';'' \<notin> set (dropCR line)" using dropCR_subset [of line] by blast
  then have "\<And>s. parseFile_line (dropCR line) s = Inr s" by (rule parseFile_line_no_delimiter)
  with len show "parseFile_loop (tokens @ line # rest) st = parseFile_loop (tokens @ rest) st"
    by (simp add: parseFile_loop_append split: sum.splits)
next
  assume "CHR '';'' \<notin> set name \<and> (length val < 3 \<or> val ! (length val - 2) \<noteq> CHR ''.'')"
  then show "processChunk_line (name @ CHR '';'' # val) m = Inr m"
    by (simp add: processChunk_line_skip processLine_incomplete)
next
  assume "CHR '';'' \<notin> set name \<and> (length val < 3 \<or> val ! (length val - 2) \<noteq> CHR ''.'')"
  then show "processChunk_loop (before @ (name @ CHR '';'' # val) # after) m
          = processChunk_loop (before @ after) m"
    by (intro processChunk_loop_skip processLine_incomplete) simp_all
qed

text \<open>
  The sequential aggregator has no check of the value: a value shorter than 3 bytes is
  passed to \<^verbatim>\<open>parseNumber\<close>, which reads past its end.
\<close>

lemma parseNumber_short_value: "length val < 3 \<Longrightarrow> parseNumber val = Inl IndexOutOfRange"
  by (auto simp: parseNumber_def byte_at_def Let_def split: if_splits)

lemma parseFile_line_short_value:
  assumes "CHR '';'' \<notin> set name" "length val < 3"
  shows "parseFile_line (name @ CHR '';'' # val) st = Inl IndexOutOfRange"
  using assms
  by (cases st) (simp add: parseFile_line_def strings_Index_first parseNumber_short_value)

lemma processChunk_short_value:
  "processChunk (contents short_value_file)
     = Inr [(''b'', \<lparr>Min = 20, Max = 20, Total = 20, Count = 1\<rparr>)]"
  by (simp add: short_value_file_def processChunk_def processChunk_line_def processLine_def
       strings_Index_def parseNumber_def byte_at_def byte_def Let_def)

lemma parseFileWithConcurrency_short_value:
  "parseFileWithConcurrency chunkSize Background sched short_value_file
     = Some (Inr ([''b''], [(''b'', \<lparr>Min = 20, Max = 20, Total = 20, Count = 1\<rparr>)]))"
proof -
  have "chunk_loop chunkSize (contents short_value_file) 0
          = Some [(0, int (length (contents short_value_file)))]"
    by (rule chunk_loop_whole_file) (simp_all add: short_value_file_def chunkSize_def)
  then have "lineOrchestrator chunkSize short_value_file
               = Some (Inr [processChunk (contents short_value_file)])"
    by (simp add: lineOrchestrator_def chunk_worker_def)
       (simp add: short_value_file_def)
  then show ?thesis
    by (simp add: parseFileWithConcurrency_def processChunk_short_value merge_entry_def)
qed

lemma parseFile_short_value: "parseFile short_value_file = Inl IndexOutOfRange"
  by (simp add: short_value_file_def parseFile_def scanner_lines_def
       MaxScanTokenSize_def dropCR_def parseFile_line_def strings_Index_def
       parseNumber_def byte_at_def byte_def Let_def)

lemma createResult_short_value:
  "createResult [''b''] [(''b'', \<lparr>Min = 20, Max = 20, Total = 20, Count = 1\<rparr>)]
     = Inr ''{b=2.0/2.0/2.0}''"
  by (simp add: createResult_def write_location_def float64_of_int_def round_half_even_def
       decimal_digit decimal_step)

text \<open>
  Claim C3. A line with a delimiter and a value that is too short is to be skipped by the
  chunk worker and by the sequential aggregator, with no failure. The chunk worker skips
  the line \<open>a;1\<close>: \<^verbatim>\<open>processLine\<close> checks the length of the value before it calls
  \<^verbatim>\<open>parseNumber\<close>, and \<^verbatim>\<open>run\<close> with concurrency returns \<open>{b=2.0/2.0/2.0}\<close> for the
  file of the lines \<open>b;2.0\<close> and \<open>a;1\<close>. The sequential aggregator does not skip it:
  \<^verbatim>\<open>parseFile\<close> passes the value of one byte to \<^verbatim>\<open>parseNumber\<close>, which reads its
  second byte, and \<^verbatim>\<open>run\<close> without concurrency panics on the same file, the index
  out of range.
\<close>

theorem sequential_scan_panics_on_short_value:
  "processLine ''a;1'' = Inr None
   \<and> processChunk_line ''a;1'' m = Inr m
   \<and> run [p \<mapsto> short_value_file] Background sched p True = Some (Inr ''{b=2.0/2.0/2.0}'')
   \<and> parseFile_line ''a;1'' st = Inl IndexOutOfRange
   \<and> run [p \<mapsto> short_value_file] Background sched p False = Some (Inl IndexOutOfRange)"
proof (intro conjI)
  show skip: "processLine ''a;1'' = Inr None"
    by (simp add: processLine_def strings_Index_def Let_def)
  then show "processChunk_line ''a;1'' m = Inr m" by (rule processChunk_line_skip)
  show "run [p \<mapsto> short_value_file] Background sched p True = Some (Inr ''{b=2.0/2.0/2.0}'')"
    by (simp add: run_def run_with_def parseFileWithConcurrency_short_value
          createResult_short_value)
  show "parseFile_line ''a;1'' st = Inl IndexOutOfRange"
    using parseFile_line_short_value [of "''a''" "''1''" st] by simp
  show "run [p \<mapsto> short_value_file] Background sched p False = Some (Inl IndexOutOfRange)"
    by (simp add: run_def run_with_def parseFile_short_value)
qed

section \<open>The loop of the orchestrator\<close>

lemma findNextLineBoundary_le: "findNextLineBoundary data e \<le> e"
proof (induction data e rule: findNextLineBoundary.induct)
  case (1 data start)
  show ?case
  proof (cases "start < 0 \<or> int (length data) \<le> start \<or> data ! nat start = newline")
    case True
    then show ?thesis by (simp add: findNextLineBoundary_stop)
  next
    case False
    with 1 have "findNextLineBoundary data (start - 1) \<le> start - 1" by simp
    with False show ?thesis by (simp add: findNextLineBoundary_back)
  qed
qed

lemma findNextLineBoundary_result:
  assumes "0 \<le> e" "e < int (length data)"
  shows "(findNextLineBoundary data e = - 1
          \<or> 0 \<le> findNextLineBoundary data e \<and> data ! nat (findNextLineBoundary data e) = newline)
         \<and> (\<forall>i. findNextLineBoundary data e < i \<and> i \<le> e \<longrightarrow> data ! nat i \<noteq> newline)"
  using assms
proof (induction data e rule: findNextLineBoundary.induct)
  case (1 data start)
  show ?case
  proof (cases "data ! nat start = newline")
    case True
    with "1.prems" show ?thesis by (auto simp: findNextLineBoundary_stop)
  next
    case False
    with "1.prems" have prev: "findNextLineBoundary data start = findNextLineBoundary data (start - 1)"
      by (simp add: findNextLineBoundary_back)
    show ?thesis
    proof (cases "start = 0")
      case True
      with prev False show ?thesis
        by (auto simp: findNextLineBoundary_stop)
    next
      case nz: False
      with "1.prems" False
      have IH: "(findNextLineBoundary data (start - 1) = - 1
          \<or> 0 \<le> findNextLineBoundary data (start - 1)
             \<and> data ! nat (findNextLineBoundary data (start - 1)) = newline)
         \<and> (\<forall>i. findNextLineBoundary data (start - 1) < i \<and> i \<le> start - 1
               \<longrightarrow> data ! nat i \<noteq> newline)"
        by (intro "1.IH") auto
      have "\<forall>i. findNextLineBoundary data (start - 1) < i \<and> i \<le> start \<longrightarrow> data ! nat i \<noteq> newline"
      proof (intro allI impI)
        fix i assume i: "findNextLineBoundary data (start - 1) < i \<and> i \<le> start"
        show "data ! nat i \<noteq> newline"
        proof (cases "i = start")
          case True
          with False show ?thesis by simp
        next
          case False
          with i IH show ?thesis by auto
        qed
      qed
      with IH prev show ?thesis by simp
    qed
  qed
qed

lemma findNextLineBoundary_ge_newline:
  assumes "0 \<le> j" "j \<le> e" "e < int (length data)" "data ! nat j = newline"
  shows "j \<le> findNextLineBoundary data e"
proof (rule ccontr)
  assume "\<not> j \<le> findNextLineBoundary data e"
  then have "findNextLineBoundary data e < j \<and> j \<le> e" using assms by simp
  with findNextLineBoundary_result [of e data] assms show False by auto
qed

(* stuck loop *)
lemma chunk_loop_stuck:
  assumes lt: "start < int (length data)"
    and stay: "findNextLineBoundary data
                (if start + int cs > int (length data) then int (length data) else start + int cs)
              = start"
  shows "chunk_loop cs data start = None"
proof (rule ccontr)
  assume "chunk_loop cs data start \<noteq> None"
  then obtain y where y: "chunk_loop cs data start = Some y" by auto
  have "\<not> (cs = cs \<and> data = data \<and> start = start)"
  proof (rule chunk_loop.raw_induct
      [where P = "\<lambda>cs' data' start' y'. \<not> (cs' = cs \<and> data' = data \<and> start' = start)", OF _ y])
    fix loop cs' data' start' y'
    assume IH: "\<And>a b c r. loop a b c = Some r \<Longrightarrow> \<not> (a = cs \<and> b = data \<and> c = start)"
      and body: "(if start' < int (length data') then
                    Option.bind
                      (loop cs' data'
                         (findNextLineBoundary data'
                            (if start' + int cs' > int (length data') then int (length data')
                             else start' + int cs')))
                      (\<lambda>rest.
                         Some ((start',
                                (if start' + int cs' > int (length data') then int (length data')
                                 else start' + int cs')) # rest))
                  else Some []) = Some y'"
    show "\<not> (cs' = cs \<and> data' = data \<and> start' = start)"
    proof
      assume eq: "cs' = cs \<and> data' = data \<and> start' = start"
      then have e: "cs' = cs" "data' = data" "start' = start" by simp_all
      from body lt have "\<exists>rest. loop cs data
             (findNextLineBoundary data
                (if start + int cs > int (length data) then int (length data)
                 else start + int cs)) = Some rest"
        unfolding e by (auto simp: bind_eq_Some_conv)
      then obtain rest where "loop cs data start = Some rest"
        unfolding stay by blast
      from IH [OF this] show False by simp
    qed
  qed
  then show False by simp
qed

lemma chunk_loop_step:
  "start < int (length data) \<Longrightarrow>
   chunk_loop cs data start
     = Option.bind (chunk_loop cs data (findNextLineBoundary data (chunk_end cs data start)))
         (\<lambda>rest. Some ((start, chunk_end cs data start) # rest))"
  by (subst chunk_loop.simps) (simp add: chunk_end_def)

lemma chunk_loop_stuck':
  "start < int (length data) \<Longrightarrow> findNextLineBoundary data (chunk_end cs data start) = start
   \<Longrightarrow> chunk_loop cs data start = None"
  unfolding chunk_end_def by (rule chunk_loop_stuck)

lemma findNextLineBoundary_no_newline:
  assumes "0 \<le> e" "e < int (length data)" "\<forall>i \<le> nat e. data ! i \<noteq> newline"
  shows "findNextLineBoundary data e = - 1"
proof -
  let ?p = "findNextLineBoundary data e"
  have le: "?p \<le> e" by (rule findNextLineBoundary_le)
  from findNextLineBoundary_result [OF assms(1,2)]
  have "?p = - 1 \<or> 0 \<le> ?p \<and> data ! nat ?p = newline" by blast
  moreover have "\<not> (0 \<le> ?p \<and> data ! nat ?p = newline)"
  proof
    assume a: "0 \<le> ?p \<and> data ! nat ?p = newline"
    with le have "nat ?p \<le> nat e" by simp
    with assms(3) a show False by blast
  qed
  ultimately show ?thesis by blast
qed

lemma chunk_loop_long_first_line:
  assumes "cs < length data" "\<forall>i \<le> cs. data ! i \<noteq> newline"
  shows "chunk_loop cs data 0 = None"
proof -
  have e0: "chunk_end cs data 0 = int cs" using assms(1) by (simp add: chunk_end_def)
  have n0: "findNextLineBoundary data (int cs) = - 1"
    by (rule findNextLineBoundary_no_newline) (use assms in simp_all)
  have stuck: "findNextLineBoundary data (chunk_end cs data (- 1)) = - 1"
  proof (cases "cs = 0")
    case True
    then show ?thesis by (simp add: chunk_end_def findNextLineBoundary_stop)
  next
    case False
    with assms(1) have e: "chunk_end cs data (- 1) = int cs - 1" by (simp add: chunk_end_def)
    show ?thesis unfolding e
      by (rule findNextLineBoundary_no_newline) (use assms False in auto)
  qed
  have none: "chunk_loop cs data (- 1) = None"
    by (rule chunk_loop_stuck' [OF _ stuck]) simp
  have "chunk_loop cs data 0
          = Option.bind (chunk_loop cs data (- 1)) (\<lambda>rest. Some ((0, int cs) # rest))"
  proof -
    from assms(1) have "(0::int) < int (length data)" by (cases data) simp_all
    from chunk_loop_step [OF this, of cs] show ?thesis by (simp add: e0 n0)
  qed
  then show ?thesis by (simp add: none)
qed

lemma nth_replicate_append:
  "(replicate k c @ rest) ! i = (if i < k then c else rest ! (i - k))"
  by (simp add: nth_append)

text \<open>
  Claim C5. The loop of the orchestrator is to end on every file. It does not end on a
  file whose first line has 81920 bytes or more before its newline: the scan back from
  the end of the first range finds no newline and returns -1, and from the start -1 the
  scan back returns -1 again, for ever. \<^verbatim>\<open>run\<close> with concurrency does not return.
\<close>

theorem orchestrator_loops_forever:
  "chunk_loop chunkSize (contents long_line_file) 0 = None
   \<and> run [p \<mapsto> long_line_file] Background sched p True = None"
proof -
  have a: "chunk_loop chunkSize (contents long_line_file) 0 = None"
  proof (rule chunk_loop_long_first_line)
    show "chunkSize < length (contents long_line_file)"
      by (simp add: chunkSize_def long_line_file_def)
    show "\<forall>i \<le> chunkSize. contents long_line_file ! i \<noteq> newline"
      by (auto simp: chunkSize_def long_line_file_def nth_replicate_append)
  qed
  then have "lineOrchestrator chunkSize long_line_file = None"
    by (simp add: lineOrchestrator_def long_line_file_def)
  then have "run [p \<mapsto> long_line_file] Background sched p True = None"
    by (simp add: run_def run_with_def parseFileWithConcurrency_def)
  with a show ?thesis by simp
qed

section \<open>The ranges of the chunks\<close>

text \<open>The pieces of \<^verbatim>\<open>strings.Split\<close>.\<close>

lemma strings_Split_not_Nil [simp]: "strings_Split x sep \<noteq> []"
  by (induction x) (auto split: list.splits)

lemma strings_Split_no_sep: "sep \<notin> set a \<Longrightarrow> strings_Split a sep = [a]"
  by (induction a) auto

lemma strings_Split_append:
  "strings_Split (a @ sep # b) sep = strings_Split a sep @ strings_Split b sep"
proof (induction a)
  case Nil
  show ?case by simp
next
  case (Cons c a)
  obtain l ls where l: "strings_Split a sep = l # ls"
    by (cases "strings_Split a sep") simp_all
  show ?case by (simp add: Cons.IH l)
qed

lemma hd_strings_Split: "hd (strings_Split x sep) = takeWhile (\<lambda>c. c \<noteq> sep) x"
proof (induction x)
  case Nil
  show ?case by simp
next
  case (Cons c x)
  obtain l ls where l: "strings_Split x sep = l # ls"
    by (cases "strings_Split x sep") simp_all
  with Cons show ?case by simp
qed

lemma split_at_newline:
  assumes "p < length data" "data ! p = newline"
  shows "strings_Split data newline
           = strings_Split (take p data) newline @ strings_Split (drop (Suc p) data) newline"
proof -
  have "data = take p data @ newline # drop (Suc p) data"
    using id_take_nth_drop [OF assms(1)] assms(2) by simp
  then have "strings_Split data newline
               = strings_Split (take p data @ newline # drop (Suc p) data) newline"
    by simp
  then show ?thesis by (simp only: strings_Split_append)
qed

lemma first_line_in_split:
  "takeWhile (\<lambda>c. c \<noteq> sep) x \<in> set (strings_Split x sep)"
  using hd_in_set [OF strings_Split_not_Nil, of x sep] by (simp add: hd_strings_Split)

text \<open>When the lines are short, the scan back from the end of a range finds a newline beyond its start, and the loop ends.\<close>

lemma newline_after_start:
  assumes short: "short_lines cs data"
    and s: "0 \<le> s" "aligned data s" "s + int cs < int (length data)"
  shows "\<exists>j. s < j \<and> j \<le> s + int cs \<and> data ! nat j = newline"
proof (cases "data ! nat s = newline")
  case True
  let ?Y = "drop (Suc (nat s)) data"
  let ?L = "takeWhile (\<lambda>c. c \<noteq> newline) ?Y"
  from s have lt: "nat s < length data" by simp
  have "?L \<in> set (strings_Split ?Y newline)" by (rule first_line_in_split)
  then have "?L \<in> set (strings_Split data newline)"
    by (simp add: split_at_newline [OF lt True])
  with short have len: "length ?L < cs" by (simp add: short_lines_def)
  let ?j = "s + 1 + int (length ?L)"
  have j: "?j \<le> s + int cs" using len by simp
  with s have "length ?L < length ?Y" by simp
  then have "?Y ! length ?L = newline"
    using nth_length_takeWhile [of "\<lambda>c. c \<noteq> newline" ?Y] by simp
  moreover have "?Y ! length ?L = data ! nat ?j"
    using s j by (simp add: nat_add_distrib)
  ultimately have "data ! nat ?j = newline" by simp
  with j show ?thesis by (intro exI [of _ ?j]) simp
next
  case False
  with s have s0: "s = 0" by (auto simp: aligned_def)
  let ?L = "takeWhile (\<lambda>c. c \<noteq> newline) data"
  have "?L \<in> set (strings_Split data newline)" by (rule first_line_in_split)
  with short have len: "length ?L < cs" by (simp add: short_lines_def)
  from s s0 have ne: "data \<noteq> []" by auto
  with False s0 have pos: "0 < length ?L" by (cases data) auto
  from len s s0 have "length ?L < length data" by simp
  then have "data ! length ?L = newline"
    using nth_length_takeWhile [of "\<lambda>c. c \<noteq> newline" data] by simp
  with pos len s0 show ?thesis
    by (intro exI [of _ "int (length ?L)"]) simp
qed

lemma chunk_end_cases:
  "chunk_end cs data s = int (length data) \<and> int (length data) \<le> s + int cs
   \<or> chunk_end cs data s = s + int cs \<and> s + int cs < int (length data)"
  by (auto simp: chunk_end_def)

lemma chunk_loop_terminates:
  assumes short: "short_lines cs data"
  shows "0 \<le> s \<Longrightarrow> aligned data s
         \<Longrightarrow> \<exists>chunks. chunk_loop cs data s = Some chunks \<and> linked cs data s chunks"
proof (induction "nat (int (length data) - s)" arbitrary: s rule: less_induct)
  case less
  show ?case
  proof (cases "s < int (length data)")
    case False
    then show ?thesis by (simp add: chunk_loop_done)
  next
    case True
    let ?e = "chunk_end cs data s"
    let ?p = "findNextLineBoundary data ?e"
    have step: "chunk_loop cs data s
                  = Option.bind (chunk_loop cs data ?p) (\<lambda>rest. Some ((s, ?e) # rest))"
      by (rule chunk_loop_step [OF True])
    from chunk_end_cases [of cs data s] show ?thesis
    proof
      assume e: "?e = int (length data) \<and> int (length data) \<le> s + int cs"
      then have p: "?p = int (length data)" by (simp add: findNextLineBoundary_stop)
      have "chunk_loop cs data s = Some [(s, ?e)]"
        unfolding step p by (simp add: chunk_loop_done)
      moreover have "linked cs data s [(s, ?e)]"
        using True less.prems p by (simp add: aligned_def)
      ultimately show ?thesis by blast
    next
      assume e: "?e = s + int cs \<and> s + int cs < int (length data)"
      with newline_after_start [OF short less.prems] obtain j
        where j: "s < j" "j \<le> ?e" "data ! nat j = newline" by auto
      from e less.prems have e0: "0 \<le> ?e" "?e < int (length data)" by simp_all
      from j less.prems have "0 \<le> j" by simp
      from findNextLineBoundary_ge_newline [OF this j(2) e0(2) j(3)]
      have pj: "j \<le> ?p" .
      have pe: "?p \<le> ?e" by (rule findNextLineBoundary_le)
      from findNextLineBoundary_result [OF e0] pj j less.prems
      have nl: "data ! nat ?p = newline" by auto
      from pj j less.prems have p0: "0 < ?p" by simp
      with nl have al: "aligned data ?p" by (simp add: aligned_def)
      have "nat (int (length data) - ?p) < nat (int (length data) - s)"
        using pj j True by simp
      from less.hyps [OF this _ al] p0 obtain rest
        where rest: "chunk_loop cs data ?p = Some rest" "linked cs data ?p rest" by auto
      have "chunk_loop cs data s = Some ((s, ?e) # rest)"
        unfolding step by (simp add: rest)
      moreover have "linked cs data s ((s, ?e) # rest)"
        using True less.prems pj j al rest by simp
      ultimately show ?thesis by blast
    qed
  qed
qed

lemma chunk_loop_Some_cases:
  assumes "chunk_loop cs data s = Some chunks"
  shows "int (length data) \<le> s \<and> chunks = []
         \<or> s < int (length data)
           \<and> (\<exists>rest. chunks = (s, chunk_end cs data s) # rest
                 \<and> chunk_loop cs data (findNextLineBoundary data (chunk_end cs data s)) = Some rest)"
proof (cases "s < int (length data)")
  case True
  from assms [unfolded chunk_loop_step [OF True]] True show ?thesis
    by (auto simp: bind_eq_Some_conv)
next
  case False
  with assms show ?thesis by (simp add: chunk_loop_done)
qed

lemma chunk_loop_minus_one:
  assumes "int cs < int (length data)" "findNextLineBoundary data (int cs) = - 1"
  shows "chunk_loop cs data (- 1) = None"
proof -
  have "findNextLineBoundary data (chunk_end cs data (- 1)) = - 1"
  proof (cases "cs = 0")
    case True
    then show ?thesis by (simp add: chunk_end_def findNextLineBoundary_stop)
  next
    case False
    with assms(1) have e: "chunk_end cs data (- 1) = int cs - 1" by (simp add: chunk_end_def)
    from findNextLineBoundary_result [of "int cs" data] assms
    have none: "\<forall>i. - 1 < i \<and> i \<le> int cs \<longrightarrow> data ! nat i \<noteq> newline" by simp
    have "\<forall>i \<le> nat (int cs - 1). data ! i \<noteq> newline"
    proof (intro allI impI)
      fix i assume "i \<le> nat (int cs - 1)"
      with False have "- 1 < int i \<and> int i \<le> int cs" by simp
      with none have "data ! nat (int i) \<noteq> newline" by blast
      then show "data ! i \<noteq> newline" by simp
    qed
    then show ?thesis unfolding e
      by (intro findNextLineBoundary_no_newline) (use False assms(1) in simp_all)
  qed
  then show ?thesis by (intro chunk_loop_stuck') simp_all
qed

lemma chunk_loop_linked:
  "chunk_loop cs data s = Some chunks \<Longrightarrow> 0 \<le> s \<Longrightarrow> aligned data s
   \<Longrightarrow> linked cs data s chunks"
proof (induction chunks arbitrary: s)
  case Nil
  from chunk_loop_Some_cases [OF Nil(1)] show ?case by simp
next
  case (Cons c rest)
  let ?e = "chunk_end cs data s"
  let ?p = "findNextLineBoundary data ?e"
  from chunk_loop_Some_cases [OF Cons.prems(1)]
  have lt: "s < int (length data)" and c: "c = (s, ?e)"
    and rest: "chunk_loop cs data ?p = Some rest" by auto
  have pe: "?p \<le> ?e" by (rule findNextLineBoundary_le)
  have prog: "s < ?p \<and> aligned data ?p"
    using chunk_end_cases [of cs data s]
  proof
    assume "?e = int (length data) \<and> int (length data) \<le> s + int cs"
    then have "?p = int (length data)" by (simp add: findNextLineBoundary_stop)
    with lt show ?thesis by (simp add: aligned_def)
  next
    assume e: "?e = s + int cs \<and> s + int cs < int (length data)"
    with Cons.prems(2) have e0: "0 \<le> ?e" "?e < int (length data)" by simp_all
    note res = findNextLineBoundary_result [OF e0]
    have ne: "?p \<noteq> s"
    proof
      assume "?p = s"
      from chunk_loop_stuck' [OF lt this] Cons.prems(1) show False by simp
    qed
    have ge: "s \<le> ?p"
    proof (cases "data ! nat s = newline")
      case True
      from findNextLineBoundary_ge_newline [OF Cons.prems(2) _ e0(2) True] e
      show ?thesis by simp
    next
      case False
      with Cons.prems(3) lt have s0: "s = 0" by (auto simp: aligned_def)
      have "?p \<noteq> - 1"
      proof
        assume m: "?p = - 1"
        from e s0 have "?e = int cs" "int cs < int (length data)" by simp_all
        with m have "chunk_loop cs data (- 1) = None"
          by (intro chunk_loop_minus_one) simp_all
        with rest m show False by simp
      qed
      with res s0 show ?thesis by auto
    qed
    with ne have gt: "s < ?p" by simp
    with res Cons.prems(2) have "data ! nat ?p = newline" by auto
    with gt Cons.prems(2) show ?thesis by (simp add: aligned_def)
  qed
  with Cons.prems(2) have "0 \<le> ?p" by simp
  from Cons.IH [OF rest this] prog have "linked cs data ?p rest" by simp
  with lt c prog Cons.prems(2) show ?case by simp
qed

text \<open>What linked ranges look like.\<close>

lemma linked_ConsD:
  assumes "linked cs data s (c # rest)"
  shows "fst c = s" "0 \<le> s" "s < int (length data)" "snd c = chunk_end cs data s"
    "s < findNextLineBoundary data (snd c)" "aligned data (findNextLineBoundary data (snd c))"
    "linked cs data (findNextLineBoundary data (snd c)) rest"
  using assms by auto

lemma linked_overlapping: "linked cs data s chunks \<Longrightarrow> overlapping data chunks"
proof (induction chunks arbitrary: s)
  case Nil
  show ?case by simp
next
  case (Cons c rest)
  let ?p = "findNextLineBoundary data (snd c)"
  note d = linked_ConsD [OF Cons.prems(1)]
  note l = d(7) and fc = d(1) and s0 = d(2) and sp = d(5) and e = d(4)
  show ?case
  proof (cases rest)
    case Nil
    then show ?thesis by simp
  next
    case (Cons c' rest')
    from linked_ConsD [OF l [unfolded Cons]]
    have c': "fst c' = ?p" and plt: "?p < int (length data)" by simp_all
    have pe: "?p \<le> snd c" by (rule findNextLineBoundary_le)
    from chunk_end_cases [of cs data s] e plt pe
    have elt: "snd c < int (length data)"
      by (auto simp: findNextLineBoundary_stop)
    from s0 sp pe have e0: "0 \<le> snd c" by simp
    from findNextLineBoundary_result [OF e0 elt] s0 sp
    have "data ! nat ?p = newline"
      and "\<forall>i. ?p < i \<and> i \<le> snd c \<longrightarrow> data ! nat i \<noteq> newline" by auto
    with Cons.IH [OF l] Cons c' fc sp pe show ?thesis by simp
  qed
qed

lemma linked_first_last:
  "linked cs data s chunks \<Longrightarrow> s < int (length data)
   \<Longrightarrow> chunks \<noteq> [] \<and> fst (hd chunks) = s \<and> snd (last chunks) = int (length data)"
proof (induction chunks arbitrary: s)
  case Nil
  then show ?case by simp
next
  case (Cons c rest)
  let ?p = "findNextLineBoundary data (snd c)"
  note d = linked_ConsD [OF Cons.prems(1)]
  note l = d(7) and fc = d(1) and e = d(4)
  show ?case
  proof (cases "?p < int (length data)")
    case True
    from Cons.IH [OF l True] fc show ?thesis by simp
  next
    case False
    with l have "rest = []" by (cases rest) simp_all
    moreover have "snd c = int (length data)"
      using False findNextLineBoundary_le [of data "snd c"] e
      by (auto simp: chunk_end_def split: if_splits)
    ultimately show ?thesis using fc by simp
  qed
qed

lemma linked_covers:
  "linked cs data s chunks \<Longrightarrow> s \<le> i \<Longrightarrow> i < int (length data)
   \<Longrightarrow> \<exists>c \<in> set chunks. fst c \<le> i \<and> i < snd c"
proof (induction chunks arbitrary: s)
  case Nil
  then show ?case by simp
next
  case (Cons c rest)
  let ?p = "findNextLineBoundary data (snd c)"
  note d = linked_ConsD [OF Cons.prems(1)]
  note l = d(7) and fc = d(1)
  have pe: "?p \<le> snd c" by (rule findNextLineBoundary_le)
  show ?case
  proof (cases "i < snd c")
    case True
    with fc Cons.prems(2) show ?thesis by auto
  next
    case False
    with pe have "?p \<le> i" by simp
    from Cons.IH [OF l this Cons.prems(3)] show ?thesis by auto
  qed
qed

lemma linked_whole_lines:
  "linked cs data s chunks \<Longrightarrow> is_line data a b \<Longrightarrow> s \<le> a \<Longrightarrow> a < int (length data)
   \<Longrightarrow> \<exists>c \<in> set chunks. fst c \<le> a \<and> b \<le> snd c"
proof (induction chunks arbitrary: s)
  case Nil
  then show ?case by simp
next
  case (Cons c rest)
  let ?p = "findNextLineBoundary data (snd c)"
  note d = linked_ConsD [OF Cons.prems(1)]
  note l = d(7) and fc = d(1) and s0 = d(2) and sp = d(5) and al = d(6)
  have pe: "?p \<le> snd c" by (rule findNextLineBoundary_le)
  show ?case
  proof (cases "?p \<le> a")
    case True
    from Cons.IH [OF l Cons.prems(2) True Cons.prems(4)] show ?thesis by auto
  next
    case False
    have "b \<le> ?p"
    proof (cases "int (length data) \<le> ?p")
      case True
      with Cons.prems(2) show ?thesis by (simp add: is_line_def)
    next
      case lt: False
      with al sp s0 have nl: "data ! nat ?p = newline" by (auto simp: aligned_def)
      show ?thesis
      proof (rule ccontr)
        assume "\<not> b \<le> ?p"
        with False have "?p \<in> {a ..< b}" by simp
        with Cons.prems(2) have "data ! nat ?p \<noteq> newline" by (simp add: is_line_def)
        with nl show False by simp
      qed
    qed
    with pe fc Cons.prems(3) show ?thesis by auto
  qed
qed

lemma aligned_0: "aligned data 0"
  by (simp add: aligned_def)

text \<open>
  Claim C2, as amended. When the lines of the file are shorter than the chunk size the
  loop of the orchestrator ends. When it ends, the ranges handed to the workers overlap
  at newlines: each next range starts before the end of the range before it or at it, at
  the last newline there; the first range starts at 0 and the last ends at the size of
  the file, so that every byte is in at least one range; and every line of the file lies
  whole inside some range (a range may end inside a line, which the next range then holds
  from its first byte).
\<close>

theorem chunks_overlap_at_newlines:
  "(short_lines cs data \<longrightarrow> (\<exists>chunks. chunk_loop cs data 0 = Some chunks))
   \<and> (chunk_loop cs data 0 = Some chunks \<longrightarrow>
        overlapping data chunks
        \<and> (data \<noteq> [] \<longrightarrow> fst (hd chunks) = 0 \<and> snd (last chunks) = int (length data))
        \<and> (\<forall>i \<in> {0 ..< int (length data)}. \<exists>c \<in> set chunks. fst c \<le> i \<and> i < snd c)
        \<and> (\<forall>a b. is_line data a b \<and> a < int (length data) \<longrightarrow>
              (\<exists>c \<in> set chunks. fst c \<le> a \<and> b \<le> snd c)))"
proof (intro conjI impI)
  assume "short_lines cs data"
  from chunk_loop_terminates [OF this _ aligned_0]
  show "\<exists>chunks. chunk_loop cs data 0 = Some chunks" by auto
next
  assume "chunk_loop cs data 0 = Some chunks"
  from chunk_loop_linked [OF this _ aligned_0] have l: "linked cs data 0 chunks" by simp
  show "overlapping data chunks" by (rule linked_overlapping [OF l])
  show "fst (hd chunks) = 0" if "data \<noteq> []"
    using linked_first_last [OF l] that by simp
  show "snd (last chunks) = int (length data)" if "data \<noteq> []"
    using linked_first_last [OF l] that by simp
  show "\<forall>i \<in> {0 ..< int (length data)}. \<exists>c \<in> set chunks. fst c \<le> i \<and> i < snd c"
    using linked_covers [OF l] by simp
  show "\<forall>a b. is_line data a b \<and> a < int (length data) \<longrightarrow>
              (\<exists>c \<in> set chunks. fst c \<le> a \<and> b \<le> snd c)"
  proof (intro allI impI)
    fix a b assume ab: "is_line data a b \<and> a < int (length data)"
    then have "0 \<le> a" by (simp add: is_line_def)
    with linked_whole_lines [OF l, of a b] ab
    show "\<exists>c \<in> set chunks. fst c \<le> a \<and> b \<le> snd c" by simp
  qed
qed

lemma chunk_loop_ham_9:
  "chunk_loop 9 (contents ham_file) 0 = Some [(0, 9), (7, 16), (16, 25), (25, 26)]"
  by (simp add: chunk_loop_step chunk_loop_done chunk_end_def ham_file_def
       findNextLineBoundary_stop findNextLineBoundary_back)

theorem chunks_overlap_at_newlines_witness:
  "chunk_loop 9 (contents ham_file) 0 = Some [(0, 9), (7, 16), (16, 25), (25, 26)]
   \<and> overlapping (contents ham_file) [(0, 9), (7, 16), (16, 25), (25, 26)]
   \<and> contents ham_file \<noteq> []
   \<and> fst (hd [(0, 9), (7, 16), (16, 25), (25, 26 :: int)]) = (0 :: int)
   \<and> snd (last [(0, 9), (7, 16), (16, 25), (25 :: int, 26)]) = int (length (contents ham_file))"
  using chunks_overlap_at_newlines
    [of 9 "contents ham_file" "[(0, 9), (7, 16), (16, 25), (25, 26)]"]
  by (simp add: chunk_loop_ham_9) (simp add: ham_file_def)

lemma chunk_loop_overlap_file:
  "chunk_loop chunkSize overlap_file 0 = Some [(0, 81920), (81917, 81924)]"
proof -
  have len: "int (length overlap_file) = 81924" by (simp add: overlap_file_def)
  have nth: "overlap_file ! 81920 = CHR ''1''" "overlap_file ! 81919 = CHR '';''"
    "overlap_file ! 81918 = CHR ''b''" "overlap_file ! 81917 = newline"
    by (simp_all add: overlap_file_def nth_append)
  have p: "findNextLineBoundary overlap_file 81920 = 81917"
    by (simp add: findNextLineBoundary_back findNextLineBoundary_stop len nth)
  have e0: "chunk_end chunkSize overlap_file 0 = 81920"
    by (simp add: chunk_end_def chunkSize_def len)
  have e1: "chunk_end chunkSize overlap_file 81917 = 81924"
    by (simp add: chunk_end_def chunkSize_def len)
  have p1: "findNextLineBoundary overlap_file 81924 = 81924"
    by (simp add: findNextLineBoundary_stop len)
  have "chunk_loop chunkSize overlap_file 81924 = Some []"
    by (simp add: chunk_loop_done len)
  then have "chunk_loop chunkSize overlap_file 81917 = Some [(81917, 81924)]"
    by (subst chunk_loop_step) (simp_all add: len e1 p1)
  then show ?thesis
    by (subst chunk_loop_step) (simp_all add: len e0 p)
qed

text \<open>
  The claim as first stated fails on a file of two lines: the first range ends at 81920
  and the second starts at 81917, the newline before the line \<open>b;1.0\<close>, whose first two
  bytes are in both ranges.
\<close>

theorem chunks_do_not_abut:
  "chunk_loop chunkSize overlap_file 0 = Some [(0, 81920), (81917, 81924)]
   \<and> \<not> abutting [(0, 81920), (81917, 81924)]
   \<and> overlap_file ! 81917 = newline
   \<and> take 5 (drop 81918 overlap_file) = ''b;1.0''
   \<and> overlap_file ! 81923 = newline"
  by (simp add: chunk_loop_overlap_file) (simp add: overlap_file_def nth_append)

section \<open>Valid lines and their prefixes\<close>

lemma valid_unsigned_shape:
  assumes "valid_unsigned u"
  shows "(\<exists>a b. is_digit a \<and> is_digit b \<and> u = [a, CHR ''.'', b])
         \<or> (\<exists>a b c. is_digit a \<and> is_digit b \<and> is_digit c \<and> u = [a, b, CHR ''.'', c])"
  using assms by (cases u rule: valid_unsigned.cases) auto

lemma valid_value_shape:
  assumes "valid_value v"
  shows "\<exists>neg. (\<exists>a b. is_digit a \<and> is_digit b \<and> v = sign_prefix neg @ [a, CHR ''.'', b])
         \<or> (\<exists>a b c. is_digit a \<and> is_digit b \<and> is_digit c
               \<and> v = sign_prefix neg @ [a, b, CHR ''.'', c])"
proof (cases v)
  case Nil
  with assms show ?thesis by simp
next
  case (Cons c u)
  show ?thesis
  proof (cases "c = CHR ''-''")
    case True
    with assms Cons have "valid_unsigned u" by simp
    from valid_unsigned_shape [OF this] Cons True show ?thesis
      by (intro exI [of _ True]) (auto simp: sign_prefix_def)
  next
    case False
    with assms Cons have "valid_unsigned v" by simp
    from valid_unsigned_shape [OF this] show ?thesis
      by (intro exI [of _ False]) (auto simp: sign_prefix_def)
  qed
qed

lemma valid_value_checked:
  assumes "valid_value v"
  shows "\<exists>t. parseNumber v = Inr t" and "3 \<le> length v" and "v ! (length v - 2) = CHR ''.''"
    and "last v \<noteq> carriage_return" and "v \<noteq> []"
proof -
  from valid_value_shape [OF assms] obtain neg where
    shape: "(\<exists>a b. is_digit a \<and> is_digit b \<and> v = sign_prefix neg @ [a, CHR ''.'', b])
         \<or> (\<exists>a b c. is_digit a \<and> is_digit b \<and> is_digit c
               \<and> v = sign_prefix neg @ [a, b, CHR ''.'', c])" by blast
  then show "\<exists>t. parseNumber v = Inr t"
    by (auto simp: parseNumber_one_digit parseNumber_two_digits)
  from shape show "3 \<le> length v" by (auto simp: sign_prefix_def)
  from shape show "v ! (length v - 2) = CHR ''.''"
    by (cases neg) (auto simp: sign_prefix_def)
  from shape show "last v \<noteq> carriage_return"
    by (auto simp: sign_prefix_def is_digit_def)
  from shape show "v \<noteq> []" by auto
qed

lemma valid_value_prefix_rejected:
  assumes "valid_value v" "v = v' @ w" "w \<noteq> []"
  shows "length v' < 3 \<or> v' ! (length v' - 2) \<noteq> CHR ''.''"
proof -
  from valid_value_shape [OF assms(1)] obtain neg where
    shape: "(\<exists>a b. is_digit a \<and> is_digit b \<and> v = sign_prefix neg @ [a, CHR ''.'', b])
         \<or> (\<exists>a b c. is_digit a \<and> is_digit b \<and> is_digit c
               \<and> v = sign_prefix neg @ [a, b, CHR ''.'', c])" by blast
  show ?thesis
  proof (cases neg)
    case True
    with shape assms(2,3) show ?thesis
      by (auto simp: sign_prefix_def append_eq_Cons_conv Cons_eq_append_conv
               dest: is_digit_not_dot)
  next
    case False
    with shape assms(2,3) show ?thesis
      by (auto simp: sign_prefix_def append_eq_Cons_conv Cons_eq_append_conv
               dest: is_digit_not_dot)
  qed
qed

lemma valid_line_shape:
  assumes "valid_line l"
  shows "\<exists>name v. l = name @ CHR '';'' # v \<and> CHR '';'' \<notin> set name \<and> valid_value v"
proof -
  let ?name = "takeWhile (\<lambda>c. c \<noteq> CHR '';'') l"
  let ?rest = "dropWhile (\<lambda>c. c \<noteq> CHR '';'') l"
  from assms have mem: "CHR '';'' \<in> set l" and v: "valid_value (drop 1 ?rest)"
    by (simp_all add: valid_line_def)
  from mem have "?rest \<noteq> []" by simp
  then obtain c v where rest: "?rest = c # v" by (cases ?rest) auto
  have "c = CHR '';''"
    using hd_dropWhile [of "\<lambda>c. c \<noteq> CHR '';''" l] \<open>?rest \<noteq> []\<close> rest by simp
  with rest have "l = ?name @ CHR '';'' # v"
    using takeWhile_dropWhile_id [of "\<lambda>c. c \<noteq> CHR '';''" l] by simp
  moreover have "CHR '';'' \<notin> set ?name" by (auto dest: set_takeWhileD)
  moreover from v rest have "valid_value v" by simp
  ultimately show ?thesis by blast
qed

lemma processLine_valid:
  assumes "CHR '';'' \<notin> set name" "valid_value v"
  shows "\<exists>t. parseNumber v = Inr t
           \<and> processLine (name @ CHR '';'' # v)
               = Inr (Some (name, \<lparr>Min = t, Max = t, Total = t, Count = 1\<rparr>))"
proof -
  from valid_value_checked [OF assms(2)] obtain t where t: "parseNumber v = Inr t"
    and len: "3 \<le> length v" and dot: "v ! (length v - 2) = CHR ''.''" by blast
  have idx: "nat (int (length name) + 1) = Suc (length name)" by simp
  from t len dot have "processLine (name @ CHR '';'' # v)
               = Inr (Some (name, \<lparr>Min = t, Max = t, Total = t, Count = 1\<rparr>))"
    using assms(1) by (simp add: processLine_def strings_Index_first Let_def idx numeral_2_eq_2)
  with t show ?thesis by blast
qed

lemma processLine_prefix_rejected:
  assumes "valid_line l" "l = F @ G" "G \<noteq> []"
  shows "processLine F = Inr None"
proof -
  from valid_line_shape [OF assms(1)] obtain name v
    where l: "l = name @ CHR '';'' # v" and name: "CHR '';'' \<notin> set name" and v: "valid_value v"
    by blast
  show ?thesis
  proof (cases "CHR '';'' \<in> set F")
    case False
    then show ?thesis by (rule processLine_no_delimiter)
  next
    case True
    from l assms(2) have eq: "F @ G = name @ CHR '';'' # v" by simp
    from eq True name obtain v' where F: "F = name @ CHR '';'' # v'" and vv: "v = v' @ G"
      by (auto simp: append_eq_append_conv2 append_eq_Cons_conv Cons_eq_append_conv)
    from valid_value_prefix_rejected [OF v vv assms(3)]
    show ?thesis unfolding F by (intro processLine_incomplete name)
  qed
qed

section \<open>The entries of a chunk\<close>

lemma map_filter_append: "List.map_filter f (xs @ ys) = List.map_filter f xs @ List.map_filter f ys"
  by (simp add: List.map_filter_def)

lemma accepted_append: "accepted (a @ newline # b) = accepted a @ accepted b"
  by (simp add: accepted_def strings_Split_append map_filter_append)

lemma processLine_Nil: "processLine [] = Inr None"
  by (simp add: processLine_def)

lemma accepted_Nil: "accepted [] = []"
  by (simp add: accepted_def processLine_Nil)

lemma accepted_rejected:
  "newline \<notin> set F \<Longrightarrow> processLine F = Inr None \<Longrightarrow> accepted F = []"
  by (simp add: accepted_def strings_Split_no_sep)

lemma accepted_newline_Cons: "accepted (newline # b) = accepted b"
  using accepted_append [of "[]" b] by (simp add: accepted_Nil)

lemma length_takeWhile_gt:
  assumes "k < length Y" "\<forall>i \<le> k. P (Y ! i)"
  shows "k < length (takeWhile P Y)"
proof (rule ccontr)
  assume "\<not> k < length (takeWhile P Y)"
  then have le: "length (takeWhile P Y) \<le> k" by simp
  with assms(1) have "length (takeWhile P Y) < length Y" by simp
  from nth_length_takeWhile [OF this] have "\<not> P (Y ! length (takeWhile P Y))" .
  with assms(2) le show False by blast
qed

lemma take_takeWhile:
  assumes "k \<le> length (takeWhile P Y)"
  shows "take k (takeWhile P Y) = take k Y"
proof -
  have "take k Y = take k (takeWhile P Y @ dropWhile P Y)" by simp
  also have "\<dots> = take k (takeWhile P Y)" using assms by (simp only: take_append) simp
  finally show ?thesis by simp
qed

lemma pieces_ok_safe: "pieces_ok x \<Longrightarrow> safe_pieces x"
  unfolding pieces_ok_def safe_pieces_def
proof
  fix q assume ok: "\<forall>q \<in> set (strings_Split x newline). q = [] \<or> valid_line q"
    and q: "q \<in> set (strings_Split x newline)"
  from ok q have "q = [] \<or> valid_line q" by blast
  then show "\<exists>r. processLine q = Inr r"
  proof
    assume "q = []"
    then show ?thesis by (simp add: processLine_Nil)
  next
    assume "valid_line q"
    from valid_line_shape [OF this] obtain name v
      where "q = name @ CHR '';'' # v" "CHR '';'' \<notin> set name" "valid_value v" by blast
    with processLine_valid [of name v] show ?thesis by auto
  qed
qed

lemma chunk_step_nat:
  assumes ok: "pieces_ok (drop s data)"
    and sp: "s \<le> p" and pe: "p \<le> e" and en: "e < length data"
    and nl: "data ! p = newline"
    and none: "\<forall>i. p < i \<and> i \<le> e \<longrightarrow> data ! i \<noteq> newline"
  shows "accepted (drop s data) = accepted (take (e - s) (drop s data)) @ accepted (drop p data)"
    and "safe_pieces (take (e - s) (drop s data))"
proof -
  let ?A = "take (p - s) (drop s data)"
  let ?Y = "drop (Suc p) data"
  let ?F = "take (e - Suc p) ?Y"
  from pe en have pn: "p < length data" by simp
  have dp: "drop p data = newline # ?Y"
    using Cons_nth_drop_Suc [OF pn] nl by simp
  have ds: "drop s data = ?A @ newline # ?Y"
  proof -
    have "drop s data = ?A @ drop (p - s) (drop s data)"
      by (simp only: append_take_drop_id)
    also have "drop (p - s) (drop s data) = drop p data" using sp by simp
    finally show ?thesis by (simp only: dp)
  qed
  have tk: "take (e - s) (drop s data) = ?A @ take (e - p) (drop p data)"
  proof -
    have "e - s = (p - s) + (e - p)" using sp pe by simp
    then have "take (e - s) (drop s data)
                 = ?A @ take (e - p) (drop (p - s) (drop s data))"
      by (simp only: take_add)
    also have "drop (p - s) (drop s data) = drop p data" using sp by simp
    finally show ?thesis .
  qed
  have split_s: "strings_Split (drop s data) newline
                   = strings_Split ?A newline @ strings_Split ?Y newline"
    by (subst ds) (rule strings_Split_append)
  have okY: "\<forall>q \<in> set (strings_Split ?Y newline). q = [] \<or> valid_line q"
    using ok unfolding pieces_ok_def split_s by simp
  have okA: "\<forall>q \<in> set (strings_Split ?A newline). q = [] \<or> valid_line q"
    using ok unfolding pieces_ok_def split_s by simp
  have safeA: "safe_pieces ?A"
    by (rule pieces_ok_safe) (use okA in \<open>simp add: pieces_ok_def\<close>)
  have acc_s: "accepted (drop s data) = accepted ?A @ accepted ?Y"
    by (subst ds) (rule accepted_append)
  have acc_p: "accepted (drop p data) = accepted ?Y"
    by (simp only: dp accepted_newline_Cons)
  have both: "accepted (drop s data)
                = accepted (take (e - s) (drop s data)) @ accepted (drop p data)
              \<and> safe_pieces (take (e - s) (drop s data))"
  proof (cases "p = e")
    case True
    then have "take (e - s) (drop s data) = ?A" by simp
    then show ?thesis
      using acc_s acc_p safeA by simp
  next
    case False
    with pe have lt: "p < e" by simp
    then have "e - p = Suc (e - Suc p)" by simp
    then have "take (e - p) (newline # ?Y) = newline # ?F" by (simp only: take_Suc_Cons)
    then have tk2: "take (e - s) (drop s data) = ?A @ newline # ?F"
      unfolding tk dp by simp
    let ?k = "e - Suc p"
    let ?L = "takeWhile (\<lambda>c. c \<noteq> newline) ?Y"
    have kY: "?k < length ?Y" using lt en by simp
    have allk: "\<forall>i \<le> ?k. ?Y ! i \<noteq> newline"
    proof (intro allI impI)
      fix i assume "i \<le> ?k"
      with lt en have "p < Suc p + i \<and> Suc p + i \<le> e" "Suc p + i \<le> length data" by simp_all
      with none show "?Y ! i \<noteq> newline" by simp
    qed
    from length_takeWhile_gt [OF kY, of "\<lambda>c. c \<noteq> newline"] allk
    have kL: "?k < length ?L" by simp
    have F: "?F = take ?k ?L" using take_takeWhile [of ?k "\<lambda>c. c \<noteq> newline" ?Y] kL by simp
    have L: "?L = ?F @ drop ?k ?L" unfolding F by simp
    have G: "drop ?k ?L \<noteq> []" using kL by simp
    have "?L \<in> set (strings_Split ?Y newline)" by (rule first_line_in_split)
    with okY have "?L = [] \<or> valid_line ?L" by blast
    with kL have "valid_line ?L" by auto
    from processLine_prefix_rejected [OF this L G] have rej: "processLine ?F = Inr None" .
    have nlF: "newline \<notin> set ?F"
      unfolding F by (auto dest!: in_set_takeD set_takeWhileD)
    have "accepted (take (e - s) (drop s data)) = accepted ?A"
      by (simp only: tk2 accepted_append accepted_rejected [OF nlF rej]) simp
    then have one: "accepted (drop s data)
                 = accepted (take (e - s) (drop s data)) @ accepted (drop p data)"
      using acc_s acc_p by simp
    have "strings_Split (take (e - s) (drop s data)) newline
            = strings_Split ?A newline @ [?F]"
      by (simp only: tk2 strings_Split_append strings_Split_no_sep [OF nlF])
    with safeA rej have "safe_pieces (take (e - s) (drop s data))"
      by (simp add: safe_pieces_def)
    with one show ?thesis by simp
  qed
  from both show "accepted (drop s data)
                    = accepted (take (e - s) (drop s data)) @ accepted (drop p data)"
    and "safe_pieces (take (e - s) (drop s data))" by simp_all
qed

lemma pieces_ok_suffix:
  assumes "pieces_ok data" "aligned data s" "0 \<le> s"
  shows "pieces_ok (drop (nat s) data)"
proof (cases "s = 0 \<or> int (length data) \<le> s")
  case True
  with assms show ?thesis by (auto simp: pieces_ok_def)
next
  case False
  with assms(2) have nl: "data ! nat s = newline" and lt: "nat s < length data"
    by (auto simp: aligned_def)
  have "drop (nat s) data = newline # drop (Suc (nat s)) data"
    using Cons_nth_drop_Suc [OF lt] nl by simp
  then have "strings_Split (drop (nat s) data) newline
               = [] # strings_Split (drop (Suc (nat s)) data) newline" by simp
  with assms(1) split_at_newline [OF lt nl] show ?thesis
    by (simp add: pieces_ok_def)
qed

lemma linked_accepted:
  assumes ok: "pieces_ok data"
  shows "linked cs data s chunks \<Longrightarrow> aligned data s \<Longrightarrow>
     concat (map (\<lambda>c. accepted (slice data c)) chunks) = accepted (drop (nat s) data)
     \<and> (\<forall>c \<in> set chunks. 0 \<le> fst c \<and> snd c \<le> int (length data)
            \<and> safe_pieces (slice data c))"
proof (induction chunks arbitrary: s)
  case Nil
  then show ?case by (simp add: accepted_Nil)
next
  case (Cons c rest)
  note d = linked_ConsD [OF Cons.prems(1)]
  let ?e = "snd c"
  let ?p = "findNextLineBoundary data ?e"
  have pe: "?p \<le> ?e" by (rule findNextLineBoundary_le)
  have en: "?e \<le> int (length data)" unfolding d(4) by (simp add: chunk_end_def)
  from Cons.IH [OF d(7) d(6)]
  have IH1: "concat (map (\<lambda>c. accepted (slice data c)) rest) = accepted (drop (nat ?p) data)"
    and IH2: "\<forall>c \<in> set rest. 0 \<le> fst c \<and> snd c \<le> int (length data)
                 \<and> safe_pieces (slice data c)" by simp_all
  have oks: "pieces_ok (drop (nat s) data)"
    by (rule pieces_ok_suffix [OF ok Cons.prems(2) d(2)])
  have sl: "slice data c = take (nat ?e - nat s) (drop (nat s) data)"
    using d(1,2,5) pe by (simp add: slice_def nat_diff_distrib)
  have step: "accepted (drop (nat s) data)
                = accepted (slice data c) @ accepted (drop (nat ?p) data)
              \<and> safe_pieces (slice data c)"
  proof (cases "?p < int (length data)")
    case False
    with pe en have "?p = int (length data)" "?e = int (length data)" by simp_all
    then have "slice data c = drop (nat s) data" "drop (nat ?p) data = []"
      by (simp_all add: sl)
    with oks show ?thesis by (simp add: accepted_Nil pieces_ok_safe)
  next
    case True
    with d(2,5,6) have nl: "data ! nat ?p = newline" by (auto simp: aligned_def)
    have elt: "?e < int (length data)"
    proof (rule ccontr)
      assume "\<not> ?e < int (length data)"
      then have "?p = ?e" by (simp add: findNextLineBoundary_stop)
      with True \<open>\<not> ?e < int (length data)\<close> show False by simp
    qed
    from d(2,5) pe have e0: "0 \<le> ?e" by simp
    from findNextLineBoundary_result [OF e0 elt]
    have none: "\<forall>i. ?p < i \<and> i \<le> ?e \<longrightarrow> data ! nat i \<noteq> newline" by blast
    have none': "\<forall>i. nat ?p < i \<and> i \<le> nat ?e \<longrightarrow> data ! i \<noteq> newline"
    proof (intro allI impI)
      fix i assume "nat ?p < i \<and> i \<le> nat ?e"
      then have "?p < int i \<and> int i \<le> ?e" by auto
      with none have "data ! nat (int i) \<noteq> newline" by blast
      then show "data ! i \<noteq> newline" by simp
    qed
    have a: "nat s \<le> nat ?p" "nat ?p \<le> nat ?e" "nat ?e < length data"
      using d(2,5) pe elt by simp_all
    from chunk_step_nat [OF oks a nl none'] show ?thesis by (simp add: sl)
  qed
  from step IH1 IH2 d(1,2) en show ?case by simp
qed

section \<open>The mappings of the chunks and their merge\<close>

lemma oplus_None_right [simp]: "oplus a None = a"
  by (cases a) simp_all

lemma oplus_assoc: "oplus (oplus a b) c = oplus a (oplus b c)"
  by (cases a; cases b; cases c) (simp_all add: merge_Location_assoc)

lemma madd_oplus: "madd acc v = oplus acc (Some v)"
  by (cases acc) simp_all

lemma key_step_oplus: "key_step k e acc = oplus acc (key_step k e None)"
  by (simp add: key_step_def madd_oplus)

lemma fold_key_step_oplus:
  "fold (key_step k) es acc = oplus acc (fold (key_step k) es None)"
proof (induction es arbitrary: acc)
  case Nil
  show ?case by simp
next
  case (Cons e es)
  have "fold (key_step k) (e # es) acc = oplus (key_step k e acc) (fold (key_step k) es None)"
    using Cons.IH [of "key_step k e acc"] by simp
  also have "\<dots> = oplus (oplus acc (key_step k e None)) (fold (key_step k) es None)"
    using key_step_oplus [of k e acc] by simp
  also have "\<dots> = oplus acc (oplus (key_step k e None) (fold (key_step k) es None))"
    by (rule oplus_assoc)
  also have "oplus (key_step k e None) (fold (key_step k) es None)
               = fold (key_step k) (e # es) None"
    using Cons.IH [of "key_step k e None"] by simp
  finally show ?case .
qed

lemma fold_key_step_alist:
  "distinct (map fst m) \<Longrightarrow> fold (key_step k) m acc = oplus acc (map_of m k)"
proof (induction m arbitrary: acc)
  case Nil
  show ?case by simp
next
  case (Cons e m)
  from Cons.prems have dm: "distinct (map fst m)" and notin: "fst e \<notin> fst ` set m" by simp_all
  have unfold: "fold (key_step k) (e # m) acc = oplus (key_step k e acc) (map_of m k)"
    using Cons.IH [OF dm, of "key_step k e acc"] by simp
  show ?case
  proof (cases "fst e = k")
    case True
    with notin have none: "map_of m k = None" by (simp add: map_of_eq_None_iff)
    have "key_step k e acc = oplus acc (Some (snd e))"
      using True by (simp add: key_step_def madd_oplus)
    with True none show ?thesis unfolding unfold by (cases e) simp
  next
    case False
    then have "key_step k e acc = acc" by (simp add: key_step_def)
    with False show ?thesis unfolding unfold by (cases e) simp
  qed
qed

lemma processLine_Count:
  "processLine q = Inr (Some (name, location)) \<Longrightarrow> Count location = 1"
  by (auto simp: processLine_def Let_def split: if_splits sum.splits)

lemma processChunk_line_map_of:
  assumes "processLine q = Inr r"
  shows "\<exists>m'. processChunk_line q m = Inr m'
           \<and> (distinct (map fst m) \<longrightarrow> distinct (map fst m'))
           \<and> (\<forall>k. map_of m' k = (case r of None \<Rightarrow> map_of m k
                                    | Some e \<Rightarrow> key_step k e (map_of m k)))"
proof (cases r)
  case None
  with assms show ?thesis by (simp add: processChunk_line_def)
next
  case (Some e)
  obtain name location where e: "e = (name, location)" by (cases e)
  from processLine_Count [OF assms [unfolded Some e]] have c1: "Count location = 1" .
  show ?thesis
  proof (cases "map_of m name")
    case None
    with assms Some e show ?thesis
      by (auto simp: processChunk_line_def update_conv' key_step_def distinct_update)
  next
    case (Some loc)
    have "loc\<lparr>Count := Count loc + 1,
              Total := Total loc + Total location,
              Max := (if Max loc < Max location then Max location else Max loc),
              Min := (if Min loc > Min location then Min location else Min loc)\<rparr>
          = merge_Location loc location"
      by (simp add: merge_Location_def c1)
    with assms \<open>r = Some e\<close> e Some show ?thesis
      by (auto simp: processChunk_line_def update_conv' key_step_def distinct_update)
  qed
qed

lemma processChunk_loop_safe:
  assumes "\<forall>q \<in> set ps. \<exists>r. processLine q = Inr r"
  shows "\<exists>m'. processChunk_loop ps m = Inr m'
           \<and> (distinct (map fst m) \<longrightarrow> distinct (map fst m'))
           \<and> (\<forall>k. map_of m' k
                  = fold (key_step k)
                      (List.map_filter (\<lambda>p. case processLine p of Inl e \<Rightarrow> None | Inr r \<Rightarrow> r) ps)
                      (map_of m k))"
  using assms
proof (induction ps arbitrary: m)
  case Nil
  show ?case by simp
next
  case (Cons q ps)
  from Cons.prems obtain r where r: "processLine q = Inr r" by auto
  from processChunk_line_map_of [OF r, of m] obtain m1
    where m1: "processChunk_line q m = Inr m1"
      and d1: "distinct (map fst m) \<longrightarrow> distinct (map fst m1)"
      and k1: "\<forall>k. map_of m1 k = (case r of None \<Rightarrow> map_of m k
                                    | Some e \<Rightarrow> key_step k e (map_of m k))" by blast
  from Cons.prems have "\<forall>q \<in> set ps. \<exists>r. processLine q = Inr r" by simp
  from Cons.IH [OF this, of m1] obtain m'
    where m': "processChunk_loop ps m1 = Inr m'"
      and d': "distinct (map fst m1) \<longrightarrow> distinct (map fst m')"
      and k': "\<forall>k. map_of m' k
                  = fold (key_step k)
                      (List.map_filter (\<lambda>p. case processLine p of Inl e \<Rightarrow> None | Inr r \<Rightarrow> r) ps)
                      (map_of m1 k)" by blast
  have "processChunk_loop (q # ps) m = Inr m'" by (simp add: m1 m')
  moreover have "distinct (map fst m) \<longrightarrow> distinct (map fst m')" using d1 d' by blast
  moreover have "\<forall>k. map_of m' k
                  = fold (key_step k)
                      (List.map_filter (\<lambda>p. case processLine p of Inl e \<Rightarrow> None | Inr r \<Rightarrow> r)
                         (q # ps))
                      (map_of m k)"
    using k' k1 r by (cases r) (simp_all add:)
  ultimately show ?case by blast
qed

lemma processChunk_safe:
  assumes "safe_pieces x"
  shows "\<exists>m. processChunk x = Inr m \<and> distinct (map fst m)
           \<and> (\<forall>k. map_of m k = fold (key_step k) (accepted x) None)"
  using processChunk_loop_safe [OF assms [unfolded safe_pieces_def], of "[]"]
  by (simp add: processChunk_def accepted_def)

lemma chunk_map_fold:
  assumes "safe_pieces (slice data c)"
  shows "processChunk (slice data c) = Inr (chunk_map data c)"
    and "fold (key_step k) (chunk_map data c) acc
           = fold (key_step k) (accepted (slice data c)) acc"
proof -
  from processChunk_safe [OF assms] obtain m where m: "processChunk (slice data c) = Inr m"
    and dm: "distinct (map fst m)"
    and km: "\<forall>k. map_of m k = fold (key_step k) (accepted (slice data c)) None" by blast
  from m have cm: "chunk_map data c = m" by (simp add: chunk_map_def)
  show "processChunk (slice data c) = Inr (chunk_map data c)" by (simp add: m cm)
  have "fold (key_step k) m acc = oplus acc (map_of m k)"
    by (rule fold_key_step_alist [OF dm])
  also have "\<dots> = oplus acc (fold (key_step k) (accepted (slice data c)) None)"
    using km by simp
  also have "\<dots> = fold (key_step k) (accepted (slice data c)) acc"
    by (rule fold_key_step_oplus [symmetric])
  finally show "fold (key_step k) (chunk_map data c) acc
           = fold (key_step k) (accepted (slice data c)) acc" by (simp add: cm)
qed

lemma workers_collect:
  assumes "\<forall>c \<in> set chunks. 0 \<le> fst c \<and> snd c \<le> int (length data)
             \<and> safe_pieces (slice data c)"
  shows "collect (List.map_filter (chunk_worker data) chunks) = Inr (map (chunk_map data) chunks)"
    and "fold (key_step k) (concat (map (chunk_map data) chunks)) acc
           = fold (key_step k) (concat (map (\<lambda>c. accepted (slice data c)) chunks)) acc"
  using assms
proof (induction chunks arbitrary: acc)
  case Nil
  {
    case 1 show ?case by simp
  next
    case 2 show ?case by simp
  }
next
  case (Cons c chunks)
  {
    case 1
    then have c: "0 \<le> fst c" "snd c \<le> int (length data)" "safe_pieces (slice data c)"
      and rest: "\<forall>c \<in> set chunks. 0 \<le> fst c \<and> snd c \<le> int (length data)
             \<and> safe_pieces (slice data c)" by simp_all
    have w: "chunk_worker data c = Some (Inr (chunk_map data c))"
      using c chunk_map_fold(1) [OF c(3)]
      by (cases c) (simp add: chunk_worker_def slice_def)
    show ?case by (simp add: w Cons.IH(1) [OF rest])
  next
    case 2
    then have c: "safe_pieces (slice data c)"
      and rest: "\<forall>c \<in> set chunks. 0 \<le> fst c \<and> snd c \<le> int (length data)
             \<and> safe_pieces (slice data c)" by simp_all
    show ?case by (simp add: chunk_map_fold(2) [OF c] Cons.IH(2) [OF rest])
  }
qed

section \<open>The two paths on a valid file\<close>

lemma mset_concat_reorder: "mset (concat (reorder a xs)) = mset (concat xs)"
proof -
  have "mset (map mset (reorder a xs)) = mset (map mset xs)"
    by (simp add: mset_reorder)
  then have "sum_mset (mset (map mset (reorder a xs))) = sum_mset (mset (map mset xs))"
    by (simp only:)
  then show ?thesis by (simp only: mset_concat sum_mset_sum_list)
qed

lemma concurrent_result:
  assumes ok: "pieces_ok (contents f)" and short: "short_lines cs (contents f)"
    and stat: "\<not> stat_error f"
  shows "\<exists>st. parseFileWithConcurrency cs Background sched f = Some (Inr st)
           \<and> names_match st
           \<and> (\<forall>k. map_of (snd st) k = fold (key_step k) (accepted (contents f)) None)"
proof -
  let ?data = "contents f"
  from chunk_loop_terminates [OF short _ aligned_0] obtain chunks
    where loop: "chunk_loop cs ?data 0 = Some chunks" and l: "linked cs ?data 0 chunks" by auto
  from linked_accepted [OF ok l aligned_0]
  have acc: "concat (map (\<lambda>c. accepted (slice ?data c)) chunks) = accepted ?data"
    and rng: "\<forall>c \<in> set chunks. 0 \<le> fst c \<and> snd c \<le> int (length ?data)
                \<and> safe_pieces (slice ?data c)" by simp_all
  let ?maps = "map (chunk_map ?data) chunks"
  let ?entries = "ranged (ranging sched) (reorder (arrival sched) ?maps)"
  let ?st = "fold merge_entry ?entries ([], [])"
  have orch: "lineOrchestrator cs f = Some (Inr (List.map_filter (chunk_worker ?data) chunks))"
    using stat loop by (simp add: lineOrchestrator_def)
  have run: "parseFileWithConcurrency cs Background sched f = Some (Inr ?st)"
    by (simp add: parseFileWithConcurrency_def orch workers_collect(1) [OF rng]
          merge_loop_Background)
  have "map_of (snd ?st) k = fold (key_step k) (accepted ?data) None" for k
  proof -
    have "mset ?entries = mset (concat ?maps)"
      by (simp only: mset_ranged mset_concat_reorder)
    then have "fold (key_step k) ?entries = fold (key_step k) (concat ?maps)"
      by (intro fold_multiset_equiv key_step_commute)
    then have "map_of (snd ?st) k = fold (key_step k) (concat ?maps) None"
      by (simp add: fold_merge_entry_map_of)
    also have "\<dots> = fold (key_step k) (concat (map (\<lambda>c. accepted (slice ?data c)) chunks)) None"
      by (rule workers_collect(2) [OF rng])
    finally show ?thesis by (simp only: acc)
  qed
  moreover have "names_match ?st" by (rule parseFileWithConcurrency_names [OF run])
  ultimately show ?thesis using run by blast
qed

lemma parseFile_line_valid:
  assumes "valid_line l"
  shows "\<exists>e. processLine l = Inr (Some e)
           \<and> (\<forall>st. \<exists>st'. parseFile_line (dropCR l) st = Inr st'
                  \<and> (\<forall>k. map_of (snd st') k = key_step k e (map_of (snd st) k)))"
proof -
  from valid_line_shape [OF assms] obtain name v
    where l: "l = name @ CHR '';'' # v" and name: "CHR '';'' \<notin> set name" and v: "valid_value v"
    by blast
  from processLine_valid [OF name v] obtain t where t: "parseNumber v = Inr t"
    and pl: "processLine l = Inr (Some (name, \<lparr>Min = t, Max = t, Total = t, Count = 1\<rparr>))"
    unfolding l by blast
  from valid_value_checked(4,5) [OF v] have cr: "dropCR l = l"
    by (simp add: dropCR_def l)
  have idx: "nat (int (length name) + 1) = Suc (length name)" by simp
  have "\<exists>st'. parseFile_line l st = Inr st'
           \<and> (\<forall>k. map_of (snd st') k
                  = key_step k (name, \<lparr>Min = t, Max = t, Total = t, Count = 1\<rparr>) (map_of (snd st) k))"
    for st
  proof -
    obtain locations m where st: "st = (locations, m)" by (cases st)
    show ?thesis
    proof (cases "map_of m name")
      case None
      then show ?thesis
        by (simp add: st l parseFile_line_def strings_Index_first [OF name] idx t Let_def
              update_conv' key_step_def)
    next
      case (Some loc)
      have "loc\<lparr>Count := Count loc + 1, Total := Total loc + t,
                Max := (if Max loc < t then t else Max loc),
                Min := (if Min loc > t then t else Min loc)\<rparr>
              = merge_Location loc \<lparr>Min = t, Max = t, Total = t, Count = 1\<rparr>"
        by (simp add: merge_Location_def)
      with Some show ?thesis
        by (simp add: st l parseFile_line_def strings_Index_first [OF name] idx t Let_def
              update_conv' key_step_def)
    qed
  qed
  with pl cr show ?thesis by auto
qed

lemma parseFile_loop_valid:
  assumes "\<forall>l \<in> set tokens. valid_line l \<and> length l < MaxScanTokenSize"
  shows "\<exists>st'. parseFile_loop tokens st = Inr st'
           \<and> (\<forall>k. map_of (snd st') k
                  = fold (key_step k) (List.map_filter accept tokens) (map_of (snd st) k))"
  using assms
proof (induction tokens arbitrary: st)
  case Nil
  show ?case by simp
next
  case (Cons l tokens)
  from Cons.prems have vl: "valid_line l" and len: "length l < MaxScanTokenSize"
    and rest: "\<forall>l \<in> set tokens. valid_line l \<and> length l < MaxScanTokenSize" by simp_all
  from parseFile_line_valid [OF vl] obtain e st1 where e: "processLine l = Inr (Some e)"
    and st1: "parseFile_line (dropCR l) st = Inr st1"
    and k1: "\<forall>k. map_of (snd st1) k = key_step k e (map_of (snd st) k)" by blast
  from Cons.IH [OF rest, of st1] obtain st' where st': "parseFile_loop tokens st1 = Inr st'"
    and k': "\<forall>k. map_of (snd st') k
                  = fold (key_step k) (List.map_filter accept tokens) (map_of (snd st1) k)"
    by blast
  have "parseFile_loop (l # tokens) st = Inr st'" using len by (simp add: st1 st')
  moreover have "\<forall>k. map_of (snd st') k
                  = fold (key_step k) (List.map_filter accept (l # tokens)) (map_of (snd st) k)"
    using k' k1 e by simp
  ultimately show ?case by blast
qed

lemma accepted_scanner_lines:
  "accepted data = List.map_filter accept (scanner_lines data)"
proof -
  let ?ls = "strings_Split data newline"
  have ne: "?ls \<noteq> []" by simp
  show ?thesis
  proof (cases "last ?ls = []")
    case False
    then show ?thesis by (simp add: accepted_def scanner_lines_def)
  next
    case True
    have "List.map_filter accept ?ls = List.map_filter accept (butlast ?ls @ [last ?ls])"
      by (simp only: append_butlast_last_id [OF ne])
    also have "\<dots> = List.map_filter accept (butlast ?ls) @ List.map_filter accept [last ?ls]"
      by (rule map_filter_append)
    also have "List.map_filter accept [last ?ls] = []"
      by (simp add: True processLine_Nil)
    finally show ?thesis using True
      by (simp add: accepted_def scanner_lines_def)
  qed
qed

lemma set_strings_Split_scanner:
  "set (strings_Split data newline) \<subseteq> insert [] (set (scanner_lines data))"
proof (cases "last (strings_Split data newline) = []")
  case False
  then show ?thesis by (auto simp: scanner_lines_def)
next
  case True
  let ?ls = "strings_Split data newline"
  have ne: "?ls \<noteq> []" by simp
  have sc: "scanner_lines data = butlast ?ls" using True by (simp add: scanner_lines_def)
  have "set ?ls = set (butlast ?ls @ [last ?ls])"
    by (simp only: append_butlast_last_id [OF ne])
  also have "\<dots> = insert (last ?ls) (set (butlast ?ls))"
    by (simp only: set_append list.set Un_insert_right Un_empty_right)
  finally have "set ?ls = insert [] (set (scanner_lines data))"
    by (simp only: True sc)
  then show ?thesis by (simp only: subset_refl)
qed

lemma valid_file_pieces_ok: "valid_file data \<Longrightarrow> pieces_ok data"
  using set_strings_Split_scanner [of data] by (auto simp: valid_file_def pieces_ok_def)

lemma sequential_result:
  assumes "valid_file (contents f)"
    and "\<forall>l \<in> set (scanner_lines (contents f)). length l < MaxScanTokenSize"
  shows "\<exists>st. parseFile f = Inr st \<and> names_match st
           \<and> (\<forall>k. map_of (snd st) k = fold (key_step k) (accepted (contents f)) None)"
proof -
  from assms have "\<forall>l \<in> set (scanner_lines (contents f)).
                     valid_line l \<and> length l < MaxScanTokenSize"
    by (simp add: valid_file_def)
  from parseFile_loop_valid [OF this, of "([], [])"] obtain st
    where st: "parseFile f = Inr st"
      and k: "\<forall>k. map_of (snd st) k
                 = fold (key_step k) (List.map_filter accept (scanner_lines (contents f))) None"
    by (auto simp: parseFile_def)
  from parseFile_names [OF st] k st show ?thesis
    by (auto simp: accepted_scanner_lines)
qed

lemma createResult_same:
  assumes "names_match st1" "names_match st2" "map_of (snd st1) = map_of (snd st2)"
  shows "\<exists>out. createResult (fst st1) (snd st1) = Inr out
           \<and> createResult (fst st2) (snd st2) = Inr out"
proof -
  from createResult_sorted [of "fst st1" "snd st1"] assms(1)
  have s1: "sorted_wrt (<) (sort (fst st1))"
    and r1: "createResult (fst st1) (snd st1)
             = Inr (''{'' @ join_entries
                      (map (\<lambda>k. write_location k (the (map_of (snd st1) k))) (sort (fst st1)))
                    @ ''}'')" by simp_all
  from createResult_sorted [of "fst st2" "snd st2"] assms(2)
  have s2: "sorted_wrt (<) (sort (fst st2))"
    and r2: "createResult (fst st2) (snd st2)
             = Inr (''{'' @ join_entries
                      (map (\<lambda>k. write_location k (the (map_of (snd st2) k))) (sort (fst st2)))
                    @ ''}'')" by simp_all
  from assms have "set (fst st1) = set (fst st2)" by (simp add: names_match_def)
  then have "set (sort (fst st1)) = set (sort (fst st2))" by simp
  with s1 s2 have "sort (fst st1) = sort (fst st2)"
    by (intro sorted_distinct_set_unique) (simp_all add: strict_sorted_iff)
  with r1 r2 assms(3) show ?thesis by simp
qed

lemma short_lines_scanner:
  assumes "0 < cs" "\<forall>l \<in> set (scanner_lines data). length l < cs"
  shows "short_lines cs data"
  using assms set_strings_Split_scanner [of data] by (auto simp: short_lines_def)

text \<open>
  Claim C1, as amended. For a valid file on which \<^verbatim>\<open>Stat\<close> succeeds and whose lines are
  all shorter than the buffer of the scanner (65536 bytes) and shorter than the chunk
  size, under a context that is never cancelled, \<^verbatim>\<open>run\<close> with concurrency returns a
  string and no error, whatever the schedule and whatever the chunk size, and \<^verbatim>\<open>run\<close>
  without concurrency returns the same string.
\<close>

theorem concurrent_equals_sequential:
  "fs filePath = Some f \<and> \<not> stat_error f \<and> valid_file (contents f) \<and> 0 < cs
     \<and> (\<forall>l \<in> set (scanner_lines (contents f)). length l < cs \<and> length l < MaxScanTokenSize)
   \<longrightarrow> (\<exists>out. run_with cs fs Background sched filePath True = Some (Inr out)
          \<and> run_with cs' fs Background sched' filePath False = Some (Inr out))"
proof
  assume a: "fs filePath = Some f \<and> \<not> stat_error f \<and> valid_file (contents f) \<and> 0 < cs
     \<and> (\<forall>l \<in> set (scanner_lines (contents f)). length l < cs \<and> length l < MaxScanTokenSize)"
  then have ok: "pieces_ok (contents f)" by (simp add: valid_file_pieces_ok)
  from a have short: "short_lines cs (contents f)" by (intro short_lines_scanner) simp_all
  from a have stat: "\<not> stat_error f" by simp
  from concurrent_result [OF ok short stat, of sched] obtain st1
    where c: "parseFileWithConcurrency cs Background sched f = Some (Inr st1)"
      and n1: "names_match st1"
      and m1: "\<forall>k. map_of (snd st1) k = fold (key_step k) (accepted (contents f)) None"
    by blast
  from a sequential_result [of f] obtain st2
    where s: "parseFile f = Inr st2" and n2: "names_match st2"
      and m2: "\<forall>k. map_of (snd st2) k = fold (key_step k) (accepted (contents f)) None"
    by auto
  from m1 m2 have "map_of (snd st1) = map_of (snd st2)" by (simp add: fun_eq_iff)
  from createResult_same [OF n1 n2 this] obtain out
    where "createResult (fst st1) (snd st1) = Inr out"
      and "createResult (fst st2) (snd st2) = Inr out" by blast
  with a c s have "run_with cs fs Background sched filePath True = Some (Inr out)
          \<and> run_with cs' fs Background sched' filePath False = Some (Inr out)"
    by (cases st1; cases st2) (simp add: run_with_def)
  then show "\<exists>out. run_with cs fs Background sched filePath True = Some (Inr out)
          \<and> run_with cs' fs Background sched' filePath False = Some (Inr out)" by blast
qed

lemma scanner_lines_ham:
  "scanner_lines (contents ham_file) = [''ham;5.0'', ''ham;25.5'', ''ham;33.6'']"
  by (simp add: scanner_lines_def ham_file_def)

lemma valid_file_ham: "valid_file (contents ham_file)"
  by (simp add: valid_file_def scanner_lines_ham valid_line_def is_digit_def)

lemma run_ham_sequential:
  "run_with cs [p \<mapsto> ham_file] Background sched p False = Some (Inr ''{ham=5.0/21.4/33.6}'')"
  by (simp add: run_with_def parseFile_ham createResult_ham)

theorem concurrent_equals_sequential_witness:
  "\<not> stat_error ham_file \<and> valid_file (contents ham_file)
   \<and> run_with 9 [''m'' \<mapsto> ham_file] Background \<lparr>arrival = [2, 0], ranging = [[], [1]]\<rparr> ''m'' True
       = Some (Inr ''{ham=5.0/21.4/33.6}'')
   \<and> run_with 9 [''m'' \<mapsto> ham_file] Background \<lparr>arrival = [], ranging = []\<rparr> ''m'' False
       = Some (Inr ''{ham=5.0/21.4/33.6}'')"
  using concurrent_equals_sequential
    [of "[''m'' \<mapsto> ham_file]" "''m''" ham_file 9
        "\<lparr>arrival = [2, 0], ranging = [[], [1]]\<rparr>" 9 "\<lparr>arrival = [], ranging = []\<rparr>"]
  by (simp add: valid_file_ham scanner_lines_ham MaxScanTokenSize_def run_ham_sequential)
     (simp add: ham_file_def)

lemma no_newline_long_name: "newline \<notin> set (replicate 70000 CHR ''a'' @ '';1.0'')"
  by auto

lemma scanner_lines_long_name:
  "scanner_lines (contents long_name_file) = [replicate 70000 CHR ''a'' @ '';1.0'']"
proof -
  have "strings_Split ((replicate 70000 CHR ''a'' @ '';1.0'') @ newline # []) newline
          = [replicate 70000 CHR ''a'' @ '';1.0'', []]"
    by (simp only: strings_Split_append strings_Split_no_sep [OF no_newline_long_name])
       simp
  then show ?thesis by (simp add: scanner_lines_def long_name_file_def)
qed

lemma valid_file_long_name: "valid_file (contents long_name_file)"
proof -
  have "dropWhile (\<lambda>c. c \<noteq> CHR '';'') (replicate 70000 CHR ''a'' @ '';1.0'') = '';1.0''"
    by (subst dropWhile_append2) auto
  then show ?thesis
    by (simp add: valid_file_def scanner_lines_long_name valid_line_def is_digit_def)
qed

lemma run_long_name_sequential:
  "run [p \<mapsto> long_name_file] Background sched p False = Some (Inl ErrTooLong)"
  by (simp add: run_def run_with_def parseFile_def scanner_lines_long_name MaxScanTokenSize_def)

lemma run_long_name_concurrent:
  "\<exists>out. run [p \<mapsto> long_name_file] Background sched p True = Some (Inr out)"
proof -
  have ok: "pieces_ok (contents long_name_file)"
    by (rule valid_file_pieces_ok [OF valid_file_long_name])
  have short: "short_lines chunkSize (contents long_name_file)"
    by (rule short_lines_scanner) (simp_all add: chunkSize_def scanner_lines_long_name)
  have stat: "\<not> stat_error long_name_file" by (simp add: long_name_file_def)
  from concurrent_result [OF ok short stat, of sched] obtain st
    where c: "parseFileWithConcurrency chunkSize Background sched long_name_file = Some (Inr st)"
      and n: "names_match st" by blast
  from createResult_sorted [of "fst st" "snd st"] n
  obtain out where "createResult (fst st) (snd st) = Inr out" by auto
  with c show ?thesis by (cases st) (simp add: run_def run_with_def)
qed

lemma run_ham_small_chunk:
  "run_with 4 [p \<mapsto> ham_file] Background sched p True = None"
proof -
  have "\<forall>i \<le> 4. contents ham_file ! i \<noteq> newline"
    by (auto simp: ham_file_def numeral_eq_Suc le_Suc_eq)
  then have "chunk_loop 4 (contents ham_file) 0 = None"
    by (intro chunk_loop_long_first_line) (simp_all add: ham_file_def)
  then show ?thesis
    by (simp add: run_with_def parseFileWithConcurrency_def lineOrchestrator_def)
       (simp add: ham_file_def)
qed

lemma run_ham_concurrent:
  "run [p \<mapsto> ham_file] Background sched p True = Some (Inr ''{ham=5.0/21.4/33.6}'')"
  by (simp add: run_def run_with_def parseFileWithConcurrency_ham createResult_ham)

text \<open>
  The claim as first stated fails. On a valid file with a line of 70004 bytes the
  sequential scan returns \<^verbatim>\<open>bufio.ErrTooLong\<close> and \<^verbatim>\<open>run\<close> with concurrency returns a
  string. And the result with concurrency changes with the chunk size: for the file of
  the three observations of \<open>ham\<close> there is a string with the chunk size of the program
  and no return with a chunk size of 4.
\<close>

theorem modes_differ_on_long_lines:
  "valid_file (contents long_name_file)
   \<and> run [''m'' \<mapsto> long_name_file] Background \<lparr>arrival = [], ranging = []\<rparr> ''m'' False
       = Some (Inl ErrTooLong)
   \<and> run [''m'' \<mapsto> long_name_file] Background \<lparr>arrival = [], ranging = []\<rparr> ''m'' True
       \<noteq> run [''m'' \<mapsto> long_name_file] Background \<lparr>arrival = [], ranging = []\<rparr> ''m'' False
   \<and> valid_file (contents ham_file)
   \<and> run [''m'' \<mapsto> ham_file] Background \<lparr>arrival = [], ranging = []\<rparr> ''m'' True
       = Some (Inr ''{ham=5.0/21.4/33.6}'')
   \<and> run_with 4 [''m'' \<mapsto> ham_file] Background \<lparr>arrival = [], ranging = []\<rparr> ''m'' True = None"
proof (intro conjI)
  show "run [''m'' \<mapsto> long_name_file] Background \<lparr>arrival = [], ranging = []\<rparr> ''m'' True
       \<noteq> run [''m'' \<mapsto> long_name_file] Background \<lparr>arrival = [], ranging = []\<rparr> ''m'' False"
    using run_long_name_concurrent [of "''m''" "\<lparr>arrival = [], ranging = []\<rparr>"]
    unfolding run_long_name_sequential by auto
qed (simp_all only: valid_file_long_name run_long_name_sequential valid_file_ham
       run_ham_concurrent run_ham_small_chunk)

subsection \<open>Schedules, rounding and counts\<close>

text \<open>Every order of the elements is the result of some schedule.\<close>

lemma reorder_reaches_every_order:
  "mset ys = mset xs \<Longrightarrow> \<exists>ns. reorder ns xs = ys"
proof (induction ys arbitrary: xs)
  case Nil
  then show ?case by (intro exI [of _ "[]"]) simp
next
  case (Cons y ys)
  from Cons.prems have "y \<in> set xs" by (metis list.set_intros(1) mset_eq_setD)
  then obtain i where i: "i < length xs" "xs ! i = y" by (auto simp: in_set_conv_nth)
  let ?rest = "take i xs @ drop (Suc i) xs"
  have "mset xs = mset (take i xs @ xs ! i # drop (Suc i) xs)"
    using id_take_nth_drop [OF i(1)] by simp
  then have "mset xs = add_mset y (mset ?rest)" using i(2) by simp
  with Cons.prems have "mset ys = mset ?rest" by simp
  from Cons.IH [OF this] obtain ns where ns: "reorder ns ?rest = ys" by blast
  from i have "xs \<noteq> []" by auto
  with i ns have "reorder (i # ns) xs = y # ys" by simp
  then show ?case by blast
qed


text \<open>The rounding of the specification determines its result.\<close>

lemma nearest_half_away_unique:
  assumes "nearest_half_away q r" "nearest_half_away q r'"
  shows "r = r'"
proof (rule ccontr)
  assume ne: "r \<noteq> r'"
  from assms have a: "\<bar>of_int r - q\<bar> \<le> 1 / 2" "\<bar>of_int r' - q\<bar> \<le> 1 / 2"
    by (auto simp: nearest_half_away_def)
  from ne have "1 \<le> \<bar>r - r'\<bar>" by simp
  then have one: "(1::real) \<le> \<bar>of_int r - of_int r'\<bar>"
    by (metis of_int_1 of_int_abs of_int_diff of_int_le_iff)
  with a have eq: "\<bar>of_int r - q\<bar> = 1 / 2" "\<bar>of_int r' - q\<bar> = 1 / 2" by linarith+
  with assms have far: "\<bar>q\<bar> < \<bar>of_int r\<bar>" "\<bar>q\<bar> < \<bar>of_int r'\<bar>"
    by (auto simp: nearest_half_away_def)
  from eq one have "(of_int r = q + 1 / 2 \<and> of_int r' = q - 1 / 2)
                    \<or> (of_int r = q - 1 / 2 \<and> of_int r' = q + 1 / 2)" by linarith
  then have "\<bar>q\<bar> < \<bar>q + 1 / 2\<bar> \<and> \<bar>q\<bar> < \<bar>q - 1 / 2\<bar>" using far by auto
  then have q: "- 1 / 4 < q" "q < 1 / 4" by linarith+
  from eq(1) have "of_int r = q + 1 / 2 \<or> of_int r = q - 1 / 2" by linarith
  then show False
  proof
    assume "of_int r = q + 1 / 2"
    with q have "(0::real) < of_int r" "of_int r < (1::real)" by linarith+
    then have "0 < r" "r < 1" by simp_all
    then show False by simp
  next
    assume "of_int r = q - 1 / 2"
    with q have "(- 1::real) < of_int r" "of_int r < (0::real)" by linarith+
    then have "- 1 < r" "r < 0" by simp_all
    then show False by simp
  qed
qed



















end
